theory Spec2Isabelle
  imports Main
begin

section \<open>JavaScript values and arrays\<close>

text \<open>
  The dynamic values the runner passes around (execution contexts, fixture results,
  the \<open>error\<close> field of a test result, what \<open>JSON.parse\<close> returns).  \<open>JError message stack\<close>
  is a native \<open>Error\<close> object.  Numbers are the integers; the program only uses them as
  array indices and counters.
\<close>

datatype jsval =
    JUndefined
  | JNull
  | JBool bool
  | JNum int
  | JStr string
  | JArr "jsval list"
  | JObj "(string \<times> jsval) list"
  | JError string string

text \<open>The operand test of \<open>a || b\<close>, \<open>c ? a : b\<close> and \<open>if (c)\<close>.\<close>

fun truthy :: "jsval \<Rightarrow> bool" where
  "truthy JUndefined = False"
| "truthy JNull = False"
| "truthy (JBool b) = b"
| "truthy (JNum n) = (n \<noteq> 0)"
| "truthy (JStr s) = (s \<noteq> [])"
| "truthy (JArr xs) = True"
| "truthy (JObj ps) = True"
| "truthy (JError m s) = True"

text \<open>
  The property names that are array indices: \<open>0\<close>, or decimal digits that do not start
  with \<open>0\<close>.
\<close>

definition digitValue :: "char \<Rightarrow> nat option" where
  "digitValue c =
     (let n = (of_char c :: nat) in if 48 \<le> n \<and> n \<le> 57 then Some (n - 48) else None)"

fun decimal :: "string \<Rightarrow> nat \<Rightarrow> nat option" where
  "decimal [] acc = Some acc"
| "decimal (c # cs) acc =
     (case digitValue c of None \<Rightarrow> None | Some d \<Rightarrow> decimal cs (10 * acc + d))"

definition arrayIndex :: "string \<Rightarrow> nat option" where
  "arrayIndex name =
     (if name = [] then None
      else if hd name = CHR ''0'' \<and> tl name \<noteq> [] then None
      else decimal name 0)"

text \<open>
  Property read \<open>v.name\<close> of the value's own properties; a property that is not there
  reads as \<open>undefined\<close>.
\<close>

fun getProp :: "jsval \<Rightarrow> string \<Rightarrow> jsval" where
  "getProp (JObj ps) name = (case map_of ps name of None \<Rightarrow> JUndefined | Some v \<Rightarrow> v)"
| "getProp (JError m s) name =
     (if name = ''message'' then JStr m else if name = ''stack'' then JStr s else JUndefined)"
| "getProp (JArr xs) name =
     (if name = ''length'' then JNum (int (length xs))
      else (case arrayIndex name of
              None \<Rightarrow> JUndefined
            | Some i \<Rightarrow> if i < length xs then xs ! i else JUndefined))"
| "getProp v name = JUndefined"

text \<open>
  \<open>xs[i]\<close> on an array: an index that is negative or past the end reads \<open>undefined\<close>
  and does not throw.
\<close>

definition js_index :: "'a list \<Rightarrow> int \<Rightarrow> 'a option" where
  "js_index xs i = (if 0 \<le> i \<and> i < int (length xs) then Some (xs ! nat i) else None)"

text \<open>\<open>xs.indexOf(x)\<close>: the first position holding \<open>x\<close>, or \<open>-1\<close>.\<close>

fun indexOfFrom :: "'a list \<Rightarrow> 'a \<Rightarrow> int \<Rightarrow> int" where
  "indexOfFrom [] x k = - 1"
| "indexOfFrom (y # ys) x k = (if y = x then k else indexOfFrom ys x (k + 1))"

definition indexOf :: "'a list \<Rightarrow> 'a \<Rightarrow> int" where
  "indexOf xs x = indexOfFrom xs x 0"

section \<open>The object graph: Topic, Test, Spec\<close>

text \<open>
  Topics and tests are objects compared by identity (\<open>===\<close>, \<open>indexOf\<close>) and linked in
  both directions, so they live in a store and are named by references.  Every
  reference denotes an object; \<open>nextTopic\<close> and \<open>nextTest\<close> are the allocation
  counters of \<open>new\<close>.  Fixtures and cleanups are user functions: a fixture maps a context
  to a value, a cleanup receives the context, and both may act on the world \<open>'w\<close>.  They
  are functions that return; one that throws or runs forever is outside the model.
\<close>

type_synonym topic_ref = nat
type_synonym test_ref = nat

type_synonym 'w fixture = "jsval \<Rightarrow> 'w \<Rightarrow> jsval \<times> 'w"
type_synonym 'w cleanup = "jsval \<Rightarrow> 'w \<Rightarrow> 'w"

record 'w Topic =
  parentTopic :: "topic_ref option"
  tests :: "test_ref list"
  topics :: "topic_ref list"
  fixtures :: "'w fixture list"
  cleanups :: "'w cleanup list"
  description :: string

text \<open>
  Modelled from the spec: the \<open>Test\<close> class and its \<open>TestConfig\<close> (test.js) are not
  among the sources.  A test holds its description, its optional configuration (a
  timeout and the isolated flag) and the back reference to its topic, as
  \<open>Topic.addTest\<close> passes them to the constructor; \<open>isolated\<close> is the property
  \<open>Suite.testRun\<close> reads, true when the configuration marks the test isolated.
\<close>

record TestConfig =
  timeout :: "int option"
  isolatedFlag :: bool

record Test =
  testDescription :: string
  config :: "TestConfig option"
  testTopic :: "topic_ref option"

definition isolated :: "Test \<Rightarrow> bool" where
  "isolated t = (case config t of None \<Rightarrow> False | Some c \<Rightarrow> isolatedFlag c)"

record 'w heap =
  topicAt :: "topic_ref \<Rightarrow> 'w Topic"
  testAt :: "test_ref \<Rightarrow> Test"
  nextTopic :: nat
  nextTest :: nat

definition blankTopic :: "'w Topic" where
  "blankTopic = \<lparr>parentTopic = None, tests = [], topics = [], fixtures = [],
     cleanups = [], description = []\<rparr>"

definition blankTest :: Test where
  "blankTest = \<lparr>testDescription = [], config = None, testTopic = None\<rparr>"

definition emptyHeap :: "'w heap" where
  "emptyHeap = \<lparr>topicAt = (\<lambda>r. blankTopic), testAt = (\<lambda>r. blankTest),
     nextTopic = 0, nextTest = 0\<rparr>"

text \<open>\<open>new Topic(description, parentTopic)\<close>\<close>

definition Topic_new :: "string \<Rightarrow> topic_ref option \<Rightarrow> 'w heap \<Rightarrow> topic_ref \<times> 'w heap" where
  "Topic_new d p h =
     (nextTopic h,
      h\<lparr>topicAt := (topicAt h)(nextTopic h :=
           \<lparr>parentTopic = p, tests = [], topics = [], fixtures = [], cleanups = [],
            description = d\<rparr>),
        nextTopic := Suc (nextTopic h)\<rparr>)"

text \<open>\<open>new Test(description, implementation, config, topic)\<close>\<close>

definition Test_new :: "string \<Rightarrow> TestConfig option \<Rightarrow> topic_ref \<Rightarrow> 'w heap \<Rightarrow> test_ref \<times> 'w heap" where
  "Test_new d c T h =
     (nextTest h,
      h\<lparr>testAt := (testAt h)(nextTest h :=
           \<lparr>testDescription = d, config = c, testTopic = Some T\<rparr>),
        nextTest := Suc (nextTest h)\<rparr>)"

definition addSubtopic :: "topic_ref \<Rightarrow> string \<Rightarrow> 'w heap \<Rightarrow> topic_ref \<times> 'w heap" where
  "addSubtopic T d h =
     (case Topic_new d (Some T) h of (subtopic, h1) \<Rightarrow>
        (subtopic,
         h1\<lparr>topicAt := (topicAt h1)(T :=
              (topicAt h1 T)\<lparr>topics := topics (topicAt h1 T) @ [subtopic]\<rparr>)\<rparr>))"

definition addTest :: "topic_ref \<Rightarrow> string \<Rightarrow> TestConfig option \<Rightarrow> 'w heap \<Rightarrow> test_ref \<times> 'w heap" where
  "addTest T d c h =
     (case Test_new d c T h of (test, h1) \<Rightarrow>
        (test,
         h1\<lparr>topicAt := (topicAt h1)(T :=
              (topicAt h1 T)\<lparr>tests := tests (topicAt h1 T) @ [test]\<rparr>)\<rparr>))"

text \<open>
  Modelled from the spec: the \<open>Spec\<close> class (spec.js) is not among the sources.  A spec
  owns one root topic, absent until the first grouping call.  \<open>getTestByAddress\<close> walks
  from the root through the indices of \<open>address.topic\<close>, then indexes \<open>address.test\<close>
  among the direct tests of the topic it reached; an index out of range at any level
  gives not-found.
\<close>

record SuiteAddress =
  spec :: int
  topic :: "int list"
  test :: int

record Spec =
  rootTopic :: "topic_ref option"

fun walkTopics :: "'w heap \<Rightarrow> topic_ref \<Rightarrow> int list \<Rightarrow> topic_ref option" where
  "walkTopics h T [] = Some T"
| "walkTopics h T (i # is) =
     (case js_index (topics (topicAt h T)) i of
        None \<Rightarrow> None
      | Some c \<Rightarrow> walkTopics h c is)"

definition Spec_getTestByAddress :: "'w heap \<Rightarrow> Spec \<Rightarrow> SuiteAddress \<Rightarrow> test_ref option" where
  "Spec_getTestByAddress h s a =
     (case rootTopic s of
        None \<Rightarrow> None
      | Some r \<Rightarrow>
          (case walkTopics h r (topic a) of
             None \<Rightarrow> None
           | Some T \<Rightarrow> js_index (tests (topicAt h T)) (test a)))"

section \<open>Suite: addressing\<close>

record Suite =
  specs :: "Spec list"
  address :: "SuiteAddress option"
  isMuted :: bool
  queryParams :: "string \<Rightarrow> string option"

definition getTestByAddress :: "'w heap \<Rightarrow> Suite \<Rightarrow> SuiteAddress \<Rightarrow> test_ref option" where
  "getTestByAddress h suite a =
     (case js_index (specs suite) (spec a) of
        None \<Rightarrow> None
      | Some s \<Rightarrow> Spec_getTestByAddress h s a)"

text \<open>
  The inner \<open>for\<close> loop of \<open>getAddressForTest\<close>: it does not stop at the first match,
  so the last spec whose root is the topic wins.
\<close>

fun specLoop :: "Spec list \<Rightarrow> topic_ref \<Rightarrow> int \<Rightarrow> int \<Rightarrow> int" where
  "specLoop [] T i specIndex = specIndex"
| "specLoop (s # ss) T i specIndex =
     specLoop ss T (i + 1) (if rootTopic s = Some T then i else specIndex)"

text \<open>
  The \<open>while (topic != null)\<close> loop.  Nothing in the loop bounds the walk up the parent
  links, so the model is a partial function: \<open>None\<close> is a walk that never ends.
\<close>

partial_function (option) addressLoop ::
  "'w heap \<Rightarrow> Spec list \<Rightarrow> topic_ref option \<Rightarrow> int list \<Rightarrow> int \<Rightarrow> (int list \<times> int) option" where
  "addressLoop h ss tp topicAddress specIndex =
     (case tp of
        None \<Rightarrow> Some (topicAddress, specIndex)
      | Some T \<Rightarrow>
          (case parentTopic (topicAt h T) of
             Some p \<Rightarrow>
               addressLoop h ss (Some p) (indexOf (topics (topicAt h p)) T # topicAddress) specIndex
           | None \<Rightarrow>
               addressLoop h ss None topicAddress (specLoop ss T 0 specIndex)))"

definition getAddressForTest :: "'w heap \<Rightarrow> Suite \<Rightarrow> test_ref \<Rightarrow> SuiteAddress option" where
  "getAddressForTest h suite t =
     (let tp = testTopic (testAt h t);
          testIndex = (case tp of None \<Rightarrow> - 1 | Some T \<Rightarrow> indexOf (tests (topicAt h T)) t)
      in map_option (\<lambda>(topicAddress, specIndex).
             \<lparr>spec = specIndex, topic = topicAddress, test = testIndex\<rparr>)
           (addressLoop h (specs suite) tp [] (- 1)))"

section \<open>Topic: context and cleanup\<close>

text \<open>
  \<open>this.fixtures.reduce((context, fixture) => (fixture(context) || context), context)\<close>:
  each fixture receives the accumulated context; what it returns becomes the context when
  it is truthy.
\<close>

fun applyFixtures :: "'w fixture list \<Rightarrow> jsval \<Rightarrow> 'w \<Rightarrow> jsval \<times> 'w" where
  "applyFixtures [] context w = (context, w)"
| "applyFixtures (fixture # fs) context w =
     (case fixture context w of
        (r, w') \<Rightarrow> applyFixtures fs (if truthy r then r else context) w')"

text \<open>
  The getter \<open>context\<close>.  It calls itself on the parent; a chain of parents that never
  ends gives no value.
\<close>

partial_function (option) Topic_context :: "'w heap \<Rightarrow> topic_ref \<Rightarrow> 'w \<Rightarrow> (jsval \<times> 'w) option" where
  "Topic_context h T w =
     (case parentTopic (topicAt h T) of
        None \<Rightarrow> Some (applyFixtures (fixtures (topicAt h T)) (JObj []) w)
      | Some p \<Rightarrow>
          Option.bind (Topic_context h p w)
            (\<lambda>r. Some (applyFixtures (fixtures (topicAt h T)) (fst r) (snd r))))"

text \<open>\<open>for (let i = this.cleanups.length - 1; i > -1; --i) this.cleanups[i](context)\<close>,
  with \<open>n\<close> the number of cleanups still to run.\<close>

fun cleanupLoop :: "'w cleanup list \<Rightarrow> nat \<Rightarrow> jsval \<Rightarrow> 'w \<Rightarrow> 'w" where
  "cleanupLoop cs 0 context w = w"
| "cleanupLoop cs (Suc i) context w = cleanupLoop cs i context ((cs ! i) context w)"

partial_function (option) cleanupContext :: "'w heap \<Rightarrow> topic_ref \<Rightarrow> jsval \<Rightarrow> 'w \<Rightarrow> 'w option" where
  "cleanupContext h T context w =
     (case parentTopic (topicAt h T) of
        None \<Rightarrow>
          Some (cleanupLoop (cleanups (topicAt h T)) (length (cleanups (topicAt h T))) context w)
      | Some p \<Rightarrow>
          cleanupContext h p context
            (cleanupLoop (cleanups (topicAt h T)) (length (cleanups (topicAt h T))) context w))"

text \<open>
  Modelled from the spec: registration (the Fixturable mixin) is not among the sources; a
  fixture or a cleanup is registered on a topic by appending it to the topic's array.
\<close>

definition addFixture :: "topic_ref \<Rightarrow> 'w fixture \<Rightarrow> 'w heap \<Rightarrow> 'w heap" where
  "addFixture T f h =
     h\<lparr>topicAt := (topicAt h)(T := (topicAt h T)\<lparr>fixtures := fixtures (topicAt h T) @ [f]\<rparr>)\<rparr>"

definition addCleanup :: "topic_ref \<Rightarrow> 'w cleanup \<Rightarrow> 'w heap \<Rightarrow> 'w heap" where
  "addCleanup T c h =
     h\<lparr>topicAt := (topicAt h)(T := (topicAt h T)\<lparr>cleanups := cleanups (topicAt h T) @ [c]\<rparr>)\<rparr>"

section \<open>Suite: running tests\<close>

text \<open>
  What a run does to the outside is a sequence of events: a test is run, a line goes to
  the console, a message is posted to the top window.  A run ends normally or with an
  exception; either way the events before the end have happened.
\<close>

record TestResult =
  passed :: bool
  error :: jsval

datatype exn = TypeError | SyntaxError | URIError | Error string

datatype event =
    TestRun test_ref
  | ConsoleLog "string list"
  | PostMessage TestResult

type_synonym outcome = "event list \<times> exn option"

text \<open>\<open>andThen a b\<close>: \<open>b\<close> follows \<open>a\<close> unless \<open>a\<close> threw; \<open>None\<close> is a continuation that does not return.\<close>

definition andThen :: "outcome \<Rightarrow> outcome option \<Rightarrow> outcome option" where
  "andThen a b =
     (case snd a of
        Some e \<Rightarrow> Some a
      | None \<Rightarrow> (case b of None \<Rightarrow> None | Some b' \<Rightarrow> Some (fst a @ fst b', snd b')))"

text \<open>
  The methods of \<open>Test\<close> that the suite calls, \<open>test.run(suite)\<close> and \<open>test.behaviorText\<close>,
  belong to the class that is not among the sources; they are parameters of the run.
\<close>

record TestClass =
  test_run :: "test_ref \<Rightarrow> TestResult"
  test_behaviorText :: "test_ref \<Rightarrow> string"

text \<open>
  Modelled from the spec: \<open>cloneableResult\<close> (util.js) is not among the sources.  Given a
  result whose \<open>error\<close> is a native failure object it builds a replacement that keeps
  \<open>passed\<close> and, of the failure, only the stack text; any other result is returned as it
  is, the same object.  Results are objects in a store of their own, so that "the same
  object" can be told from "a copy".
\<close>

definition isFailure :: "jsval \<Rightarrow> bool" where
  "isFailure v = (case v of JError m s \<Rightarrow> True | _ \<Rightarrow> False)"

definition cloneableResultValue :: "TestResult \<Rightarrow> TestResult" where
  "cloneableResultValue result =
     (if isFailure (error result)
      then \<lparr>passed = passed result, error = JObj [(''stack'', getProp (error result) ''stack'')]\<rparr>
      else result)"

type_synonym result_ref = nat

record results =
  resultAt :: "result_ref \<Rightarrow> TestResult"
  nextResult :: nat

definition cloneableResult :: "results \<Rightarrow> result_ref \<Rightarrow> result_ref \<times> results" where
  "cloneableResult rs r =
     (if isFailure (error (resultAt rs r))
      then (nextResult rs,
            rs\<lparr>resultAt := (resultAt rs)(nextResult rs := cloneableResultValue (resultAt rs r)),
               nextResult := Suc (nextResult rs)\<rparr>)
      else (r, rs))"

text \<open>The arguments of the \<open>console.log\<close> call in \<open>testRun\<close>.\<close>

definition resultLog :: "string \<Rightarrow> TestResult \<Rightarrow> bool \<Rightarrow> string list" where
  "resultLog behaviorText result isolatedTest =
     (let resultString = (if passed result then '' PASSED '' else '' FAILED '');
          resultColor = (if passed result then ''green'' else ''red'');
          line = behaviorText @ ''... %c'' @ resultString;
          style = ''color: #fff; font-weight: bold; background-color: '' @ resultColor
      in if isolatedTest
         then [''%c ISOLATED %c '' @ line,
               ''background-color: #fd0; font-weight: bold; color: #830'', '''', style]
         else [line, style])"

definition testRun :: "TestClass \<Rightarrow> 'w heap \<Rightarrow> Suite \<Rightarrow> test_ref option \<Rightarrow> outcome" where
  "testRun tc h suite t =
     (case t of
        None \<Rightarrow> ([], Some (Error ''No test found!''))
      | Some t' \<Rightarrow>
          (let result = test_run tc t'
           in ([TestRun t'] @
               (if \<not> isMuted suite
                then [ConsoleLog (resultLog (test_behaviorText tc t') result
                        (isolated (testAt h t')))]
                else []) @
               [PostMessage (cloneableResultValue result)],
               None)))"

text \<open>The first loop of \<open>topicRun\<close>, over the indices \<open>0 .. topic.tests.length - 1\<close>.\<close>

fun testsLoop :: "TestClass \<Rightarrow> 'w heap \<Rightarrow> Suite \<Rightarrow> int \<Rightarrow> int list \<Rightarrow> nat list \<Rightarrow> outcome option" where
  "testsLoop tc h suite specIndex topicAddress [] = Some ([], None)"
| "testsLoop tc h suite specIndex topicAddress (i # is) =
     (case getTestByAddress h suite \<lparr>spec = specIndex, topic = topicAddress, test = int i\<rparr> of
        None \<Rightarrow> testsLoop tc h suite specIndex topicAddress is
      | Some t \<Rightarrow>
          andThen (testRun tc h suite (Some t))
            (testsLoop tc h suite specIndex topicAddress is))"

text \<open>
  \<open>topicRun\<close> calls itself on every subtopic.  Nothing in it bounds the descent, so the
  model counts the nesting: the first argument is the number of levels the run may still
  enter, and \<open>None\<close> is a run that was cut off.
\<close>

fun topicRun :: "nat \<Rightarrow> TestClass \<Rightarrow> 'w heap \<Rightarrow> Suite \<Rightarrow> topic_ref \<Rightarrow> int \<Rightarrow> int list \<Rightarrow> outcome option"
  and subtopicsLoop :: "nat \<Rightarrow> TestClass \<Rightarrow> 'w heap \<Rightarrow> Suite \<Rightarrow> topic_ref \<Rightarrow> int \<Rightarrow> int list \<Rightarrow>
    nat list \<Rightarrow> outcome option" where
  "topicRun 0 tc h suite T specIndex topicAddress = None"
| "topicRun (Suc n) tc h suite T specIndex topicAddress =
     (case testsLoop tc h suite specIndex topicAddress [0..<length (tests (topicAt h T))] of
        None \<Rightarrow> None
      | Some a \<Rightarrow>
          andThen a (subtopicsLoop n tc h suite T specIndex topicAddress
            [0..<length (topics (topicAt h T))]))"
| "subtopicsLoop n tc h suite T specIndex topicAddress [] = Some ([], None)"
| "subtopicsLoop n tc h suite T specIndex topicAddress (i # is) =
     (case topicRun n tc h suite (topics (topicAt h T) ! i) specIndex (topicAddress @ [int i]) of
        None \<Rightarrow> None
      | Some a \<Rightarrow> andThen a (subtopicsLoop n tc h suite T specIndex topicAddress is))"

text \<open>
  The loop of \<open>run\<close> over the specs.  A spec without a root topic makes the run throw:
  \<open>spec.rootTopic!.description\<close> when the suite is not muted, \<open>topic.tests\<close> in
  \<open>topicRun\<close> when it is.
\<close>

definition specHeader :: "string \<Rightarrow> string list" where
  "specHeader d =
     [''%c '' @ d @ '' '',
      ''background-color: #bef; color: #246;'' @ [CHR 0x0A] @
      ''              font-weight: bold; font-size: 24px;'']"

fun specsLoop :: "nat \<Rightarrow> TestClass \<Rightarrow> 'w heap \<Rightarrow> Suite \<Rightarrow> nat list \<Rightarrow> outcome option" where
  "specsLoop fuel tc h suite [] = Some ([], None)"
| "specsLoop fuel tc h suite (i # is) =
     (case rootTopic (specs suite ! i) of
        None \<Rightarrow> Some ([], Some TypeError)
      | Some r \<Rightarrow>
          (case topicRun fuel tc h suite r (int i) [] of
             None \<Rightarrow> None
           | Some a \<Rightarrow>
               andThen
                 ((if \<not> isMuted suite then [ConsoleLog (specHeader (description (topicAt h r)))]
                   else []) @ fst a, snd a)
                 (specsLoop fuel tc h suite is)))"

definition run :: "nat \<Rightarrow> TestClass \<Rightarrow> 'w heap \<Rightarrow> Suite \<Rightarrow> outcome option" where
  "run fuel tc h suite =
     (case address suite of
        Some a \<Rightarrow>
          (case getTestByAddress h suite a of
             None \<Rightarrow> Some ([], None)
           | Some t \<Rightarrow> Some (testRun tc h suite (Some t)))
      | None \<Rightarrow> specsLoop fuel tc h suite [0..<length (specs suite)])"

section \<open>Suite: construction\<close>

text \<open>
  \<open>s.split(c)\<close> for a one-character separator: the pieces between the separators, at
  least one piece.
\<close>

fun js_split :: "char \<Rightarrow> string \<Rightarrow> string list" where
  "js_split c [] = [[]]"
| "js_split c (x # xs) =
     (if x = c then [] # js_split c xs
      else (case js_split c xs of p # ps \<Rightarrow> (x # p) # ps | [] \<Rightarrow> [[x]]))"

text \<open>
  \<open>decodeURIComponent\<close>, as ECMAScript defines it, on strings held as UTF-8 octets.  A
  \<open>%\<close> must be followed by two hexadecimal digits, and the escaped octets must spell
  well-formed UTF-8; anything else raises \<open>URIError\<close>.  An argument that is \<open>undefined\<close> is
  first converted to the string \<open>undefined\<close>.
\<close>

definition hexDigit :: "char \<Rightarrow> nat option" where
  "hexDigit c =
     (let n = (of_char c :: nat)
      in if 48 \<le> n \<and> n \<le> 57 then Some (n - 48)
         else if 65 \<le> n \<and> n \<le> 70 then Some (n - 55)
         else if 97 \<le> n \<and> n \<le> 102 then Some (n - 87)
         else None)"

datatype piece = Lit char | Esc nat

fun pieces :: "string \<Rightarrow> piece list option" where
  "pieces [] = Some []"
| "pieces [c] = (if c = CHR ''%'' then None else Some [Lit c])"
| "pieces [c, a] = (if c = CHR ''%'' then None else map_option ((#) (Lit c)) (pieces [a]))"
| "pieces (c # a # b # rest) =
     (if c = CHR ''%''
      then (case (hexDigit a, hexDigit b) of
              (Some x, Some y) \<Rightarrow> map_option ((#) (Esc (16 * x + y))) (pieces rest)
            | _ \<Rightarrow> None)
      else map_option ((#) (Lit c)) (pieces (a # b # rest)))"

text \<open>
  The escaped octets, checked against the table of well-formed UTF-8: \<open>need\<close> continuation
  octets are still due, the next of them within \<open>lo .. hi\<close>.
\<close>

fun octets :: "piece list \<Rightarrow> nat \<Rightarrow> nat \<Rightarrow> nat \<Rightarrow> string option" where
  "octets [] need lo hi = (if need = 0 then Some [] else None)"
| "octets (Lit c # ps) need lo hi =
     (if need = 0 then map_option ((#) c) (octets ps 0 0 0) else None)"
| "octets (Esc b # ps) need lo hi =
     (if need = 0
      then (if b < 128 then map_option ((#) (char_of b)) (octets ps 0 0 0)
            else if 194 \<le> b \<and> b \<le> 223 then map_option ((#) (char_of b)) (octets ps 1 128 191)
            else if b = 224 then map_option ((#) (char_of b)) (octets ps 2 160 191)
            else if b = 237 then map_option ((#) (char_of b)) (octets ps 2 128 159)
            else if 225 \<le> b \<and> b \<le> 239 then map_option ((#) (char_of b)) (octets ps 2 128 191)
            else if b = 240 then map_option ((#) (char_of b)) (octets ps 3 144 191)
            else if 241 \<le> b \<and> b \<le> 243 then map_option ((#) (char_of b)) (octets ps 3 128 191)
            else if b = 244 then map_option ((#) (char_of b)) (octets ps 3 128 143)
            else None)
      else if lo \<le> b \<and> b \<le> hi
           then map_option ((#) (char_of b)) (octets ps (need - 1) 128 191)
           else None)"

definition decodeURIComponent :: "string option \<Rightarrow> exn + string" where
  "decodeURIComponent v =
     (case pieces (case v of None \<Rightarrow> ''undefined'' | Some s \<Rightarrow> s) of
        None \<Rightarrow> Inl URIError
      | Some ps \<Rightarrow> (case octets ps 0 0 0 of None \<Rightarrow> Inl URIError | Some s \<Rightarrow> Inr s))"

text \<open>
  The \<open>reduce\<close> over the parts of the query string: \<open>map[parts[0]] = decodeURIComponent(parts[1])\<close>.
  A part without \<open>=\<close> has no \<open>parts[1]\<close>.
\<close>

fun parseParts :: "string list \<Rightarrow> (string \<Rightarrow> string option) \<Rightarrow> exn + (string \<Rightarrow> string option)" where
  "parseParts [] m = Inr m"
| "parseParts (part # rest) m =
     (let parts = js_split CHR ''='' part
      in case decodeURIComponent (js_index parts 1) of
           Inl e \<Rightarrow> Inl e
         | Inr v \<Rightarrow> parseParts rest (m(hd parts \<mapsto> v)))"

text \<open>\<open>search\<close> is \<open>window.location.search\<close>, absent when the location or the search is null.\<close>

definition parseQuery :: "string option \<Rightarrow> exn + (string \<Rightarrow> string option)" where
  "parseQuery search =
     (case search of
        None \<Rightarrow> Inr Map.empty
      | Some s \<Rightarrow> parseParts (js_split CHR ''&'' (drop 1 s)) Map.empty)"

text \<open>
  The object the constructor leaves behind, field by field as lines 146 to 162 assign
  them.  \<open>this.address\<close> is declared \<open>SuiteAddress | null\<close>, but what is stored is whatever
  \<open>JSON.parse\<close> returned: the cast does not look at the value.
\<close>

record SuiteObject =
  this_specs :: "Spec list"
  this_address :: jsval
  this_isMuted :: bool
  this_queryParams :: "string \<Rightarrow> string option"

text \<open>
  The constructor.  \<open>JSON.parse\<close> is the host's parser, a parameter: it throws or returns a
  value.
\<close>

definition Suite_new :: "(string \<Rightarrow> exn + jsval) \<Rightarrow> string option \<Rightarrow> Spec list \<Rightarrow> exn + SuiteObject" where
  "Suite_new JSON_parse search ss =
     (case parseQuery search of
        Inl e \<Rightarrow> Inl e
      | Inr qp \<Rightarrow>
          (case (case qp ''testrunner_suite_address'' of
                   None \<Rightarrow> Inr JNull
                 | Some v \<Rightarrow> if v \<noteq> [] then JSON_parse v else Inr JNull) of
             Inl e \<Rightarrow> Inl e
           | Inr a \<Rightarrow>
               Inr \<lparr>this_specs = ss, this_address = a,
                    this_isMuted = (qp ''testrunner_muted'' \<noteq> None),
                    this_queryParams = qp\<rparr>))"

text \<open>
  The constructed object as its declared types read it.  \<open>run\<close> only asks whether
  \<open>this.address\<close> is truthy before it uses it, so every falsy value stands for "no
  address".  A truthy value with a number \<open>spec\<close>, an array of numbers \<open>topic\<close> and a
  number \<open>test\<close> is that address.  Any other truthy value is outside the declared type:
  the object has no typed reading, and what a run does with it is not modelled.
\<close>

fun numbers :: "jsval list \<Rightarrow> int list option" where
  "numbers [] = Some []"
| "numbers (JNum n # vs) = map_option ((#) n) (numbers vs)"
| "numbers (v # vs) = None"

definition asAddress :: "jsval \<Rightarrow> SuiteAddress option" where
  "asAddress v =
     (case (getProp v ''spec'', getProp v ''topic'', getProp v ''test'') of
        (JNum s, JArr ts, JNum t) \<Rightarrow>
          map_option (\<lambda>path. \<lparr>spec = s, topic = path, test = t\<rparr>) (numbers ts)
      | _ \<Rightarrow> None)"

definition asSuite :: "SuiteObject \<Rightarrow> Suite option" where
  "asSuite obj =
     (if \<not> truthy (this_address obj)
      then Some \<lparr>specs = this_specs obj, address = None, isMuted = this_isMuted obj,
                 queryParams = this_queryParams obj\<rparr>
      else map_option
             (\<lambda>a. \<lparr>specs = this_specs obj, address = Some a, isMuted = this_isMuted obj,
                    queryParams = this_queryParams obj\<rparr>)
             (asAddress (this_address obj)))"

section \<open>Well-formed object graphs\<close>

text \<open>
  What the constructors guarantee.  A parent is set once, by the constructor, to a topic
  that already exists, so it is older than its child; \<open>addSubtopic\<close> and \<open>addTest\<close> are
  the only writers of the child lists, so every listed child points back to the topic
  that lists it; references at or above the allocation counters denote objects that
  have not been built yet.
\<close>

definition wf_heap :: "'w heap \<Rightarrow> bool" where
  "wf_heap h \<longleftrightarrow>
     (\<forall>T p. parentTopic (topicAt h T) = Some p \<longrightarrow> p < T) \<and>
     (\<forall>T c. c \<in> set (topics (topicAt h T)) \<longrightarrow> parentTopic (topicAt h c) = Some T) \<and>
     (\<forall>T t. t \<in> set (tests (topicAt h T)) \<longrightarrow> testTopic (testAt h t) = Some T) \<and>
     (\<forall>T. nextTopic h \<le> T \<longrightarrow> topicAt h T = blankTopic) \<and>
     (\<forall>t. nextTest h \<le> t \<longrightarrow> testAt h t = blankTest)"

text \<open>The topics below a root, following the \<open>topics\<close> arrays downwards.\<close>

inductive subtopicOf :: "'w heap \<Rightarrow> topic_ref \<Rightarrow> topic_ref \<Rightarrow> bool" for h r where
  subtopic_root: "subtopicOf h r r"
| subtopic_child: "subtopicOf h r T \<Longrightarrow> c \<in> set (topics (topicAt h T)) \<Longrightarrow> subtopicOf h r c"

text \<open>\<open>chainEnds h T R\<close>: following \<open>parentTopic\<close> upwards from \<open>T\<close> ends at the parentless \<open>R\<close>.\<close>

inductive chainEnds :: "'w heap \<Rightarrow> topic_ref \<Rightarrow> topic_ref \<Rightarrow> bool" for h where
  chain_top: "parentTopic (topicAt h T) = None \<Longrightarrow> chainEnds h T T"
| chain_up: "parentTopic (topicAt h T) = Some p \<Longrightarrow> chainEnds h p R \<Longrightarrow> chainEnds h T R"

text \<open>A test is present in a suite when some topic below the root of one of its specs lists it.\<close>

definition containsTest :: "'w heap \<Rightarrow> Suite \<Rightarrow> test_ref \<Rightarrow> bool" where
  "containsTest h suite t \<longleftrightarrow>
     (\<exists>s \<in> set (specs suite). \<exists>r T. rootTopic s = Some r \<and> subtopicOf h r T \<and>
        t \<in> set (tests (topicAt h T)))"

text \<open>The root topic of a spec is a topic built without a parent.\<close>

definition rootsParentless :: "'w heap \<Rightarrow> Suite \<Rightarrow> bool" where
  "rootsParentless h suite \<longleftrightarrow>
     (\<forall>s \<in> set (specs suite). \<forall>r. rootTopic s = Some r \<longrightarrow> parentTopic (topicAt h r) = None)"

text \<open>
  A test is unrooted in a suite when the chain of parents above its topic ends at a topic
  that is the root of none of the suite's specs (a test without a topic has no chain).
\<close>

definition unrootedTest :: "'w heap \<Rightarrow> Suite \<Rightarrow> test_ref \<Rightarrow> bool" where
  "unrootedTest h suite t \<longleftrightarrow>
     (\<forall>T R. testTopic (testAt h t) = Some T \<longrightarrow> chainEnds h T R \<longrightarrow>
        (\<forall>s \<in> set (specs suite). rootTopic s \<noteq> Some R))"

text \<open>
  An address is out of range when the spec index, an index of the topic path, or the test
  index falls outside the array it indexes, at the level the walk has reached.
\<close>

fun pathOutOfRange :: "'w heap \<Rightarrow> topic_ref \<Rightarrow> int list \<Rightarrow> int \<Rightarrow> bool" where
  "pathOutOfRange h T [] t = (t < 0 \<or> int (length (tests (topicAt h T))) \<le> t)"
| "pathOutOfRange h T (i # is) t =
     (i < 0 \<or> int (length (topics (topicAt h T))) \<le> i \<or>
      pathOutOfRange h (topics (topicAt h T) ! nat i) is t)"

definition outOfRange :: "'w heap \<Rightarrow> Suite \<Rightarrow> SuiteAddress \<Rightarrow> bool" where
  "outOfRange h suite a \<longleftrightarrow>
     spec a < 0 \<or> int (length (specs suite)) \<le> spec a \<or>
     (case rootTopic (specs suite ! nat (spec a)) of
        None \<Rightarrow> False
      | Some r \<Rightarrow> pathOutOfRange h r (topic a) (test a))"

section \<open>The example tree of the spec's own test\<close>

text \<open>
  The tree that spec-spec.ts builds: a topic with one test, a nested topic with two tests,
  and a trailing test on the outer topic, made with the calls \<open>describe\<close> and \<open>it\<close> come
  down to.
\<close>

definition ex1 :: "topic_ref \<times> unit heap" where
  "ex1 = Topic_new ''a spec'' None emptyHeap"

definition ex2 :: "test_ref \<times> unit heap" where
  "ex2 = addTest (fst ex1) ''has a test'' None (snd ex1)"

definition ex3 :: "topic_ref \<times> unit heap" where
  "ex3 = addSubtopic (fst ex1) ''nested topic'' (snd ex2)"

definition ex4 :: "test_ref \<times> unit heap" where
  "ex4 = addTest (fst ex3) ''also has a test'' None (snd ex3)"

definition ex5 :: "test_ref \<times> unit heap" where
  "ex5 = addTest (fst ex3) ''may have another test'' None (snd ex4)"

definition ex6 :: "test_ref \<times> unit heap" where
  "ex6 = addTest (fst ex1) ''may include trailing tests'' None (snd ex5)"

definition exampleHeap :: "unit heap" where
  "exampleHeap = snd ex6"

definition outerTopic :: topic_ref where "outerTopic = fst ex1"
definition nestedTopic :: topic_ref where "nestedTopic = fst ex3"
definition outerTest1 :: test_ref where "outerTest1 = fst ex2"
definition nestedTest1 :: test_ref where "nestedTest1 = fst ex4"
definition nestedTest2 :: test_ref where "nestedTest2 = fst ex5"
definition outerTest2 :: test_ref where "outerTest2 = fst ex6"

definition exampleSuite :: Suite where
  "exampleSuite = \<lparr>specs = [\<lparr>rootTopic = Some outerTopic\<rparr>], address = None,
     isMuted = False, queryParams = Map.empty\<rparr>"

text \<open>A topic built on its own, outside every spec, and a test constructed for it but never added.\<close>

definition ex7 :: "topic_ref \<times> unit heap" where
  "ex7 = Topic_new ''detached'' None exampleHeap"

definition ex8 :: "test_ref \<times> unit heap" where
  "ex8 = Test_new ''stray'' None (fst ex7) (snd ex7)"

definition strayHeap :: "unit heap" where
  "strayHeap = snd ex8"

definition strayTest :: test_ref where "strayTest = fst ex8"

section \<open>The chain of a topic, and the folds the spec speaks of\<close>

text \<open>\<open>topicChain h T ch\<close>: \<open>ch\<close> lists the topics from the parentless root down to \<open>T\<close>.\<close>

inductive topicChain :: "'w heap \<Rightarrow> topic_ref \<Rightarrow> topic_ref list \<Rightarrow> bool" for h where
  chain_root: "parentTopic (topicAt h T) = None \<Longrightarrow> topicChain h T [T]"
| chain_child: "parentTopic (topicAt h T) = Some p \<Longrightarrow> topicChain h p ch \<Longrightarrow>
     topicChain h T (ch @ [T])"

text \<open>
  One step of the fold over fixtures, as the spec words it: the fixture receives the
  accumulated context, and its return value replaces the accumulator only when truthy.
\<close>

definition fixtureStep :: "'w fixture \<Rightarrow> jsval \<times> 'w \<Rightarrow> jsval \<times> 'w" where
  "fixtureStep f acc =
     (case f (fst acc) (snd acc) of (r, w') \<Rightarrow> (if truthy r then r else fst acc, w'))"

text \<open>Fixtures in root-to-leaf order, and cleanups in the order the spec gives them: the
  topic's own, last registered first, then the parent's, up to the root.\<close>

definition fixturesAlong :: "'w heap \<Rightarrow> topic_ref list \<Rightarrow> 'w fixture list" where
  "fixturesAlong h ch = concat (map (\<lambda>U. fixtures (topicAt h U)) ch)"

definition cleanupsAlong :: "'w heap \<Rightarrow> topic_ref list \<Rightarrow> 'w cleanup list" where
  "cleanupsAlong h ch = concat (map (\<lambda>U. rev (cleanups (topicAt h U))) (rev ch))"

section \<open>An example with fixtures and cleanups\<close>

text \<open>
  The world is a log of what ran.  The outer topic registers a fixture that returns a new
  context; the nested topic registers one that returns nothing and one that overrides the
  context; each topic registers two cleanups.
\<close>

definition fixtureA :: "string list fixture" where
  "fixtureA = (\<lambda>context w. (JObj [(''a'', JNum 1)], w @ [''fixtureA'']))"

definition fixtureB :: "string list fixture" where
  "fixtureB = (\<lambda>context w. (JUndefined, w @ [''fixtureB'']))"

definition fixtureC :: "string list fixture" where
  "fixtureC = (\<lambda>context w. (JObj ((''c'', JNum 3) # (case context of JObj ps \<Rightarrow> ps | _ \<Rightarrow> [])),
     w @ [''fixtureC'']))"

definition fx1 :: "topic_ref \<times> string list heap" where
  "fx1 = Topic_new ''outer'' None emptyHeap"

definition fx2 :: "topic_ref \<times> string list heap" where
  "fx2 = addSubtopic (fst fx1) ''inner'' (snd fx1)"

definition fixtureHeap :: "string list heap" where
  "fixtureHeap =
     addCleanup (fst fx2) (\<lambda>context w. w @ [''cleanup4''])
     (addCleanup (fst fx2) (\<lambda>context w. w @ [''cleanup3''])
     (addCleanup (fst fx1) (\<lambda>context w. w @ [''cleanup2''])
     (addCleanup (fst fx1) (\<lambda>context w. w @ [''cleanup1''])
     (addFixture (fst fx2) fixtureC
     (addFixture (fst fx2) fixtureB
     (addFixture (fst fx1) fixtureA (snd fx2)))))))"

definition innerTopic :: topic_ref where "innerTopic = fst fx2"

section \<open>Reading a run\<close>

text \<open>The tests run, the messages posted, and the events that are not console lines.\<close>

fun executed :: "event list \<Rightarrow> test_ref list" where
  "executed [] = []"
| "executed (TestRun t # evs) = t # executed evs"
| "executed (ev # evs) = executed evs"

fun posted :: "event list \<Rightarrow> TestResult list" where
  "posted [] = []"
| "posted (PostMessage r # evs) = r # posted evs"
| "posted (ev # evs) = posted evs"

fun offConsole :: "event \<Rightarrow> bool" where
  "offConsole (ConsoleLog args) = False"
| "offConsole ev = True"

text \<open>
  The shape of a finite tree of topics: the direct tests of a topic and the shapes of its
  subtopics, in the order of the arrays.  \<open>preorder\<close> is the walk the spec describes: the
  topic's own tests first, then each subtopic in turn.
\<close>

datatype tree = Node "test_ref list" "tree list"

fun preorder :: "tree \<Rightarrow> test_ref list" where
  "preorder (Node ts cs) = ts @ concat (map preorder cs)"

fun height :: "tree \<Rightarrow> nat" where
  "height (Node ts cs) = Suc (fold max (map height cs) 0)"

inductive treeAt :: "'w heap \<Rightarrow> topic_ref \<Rightarrow> tree \<Rightarrow> bool" for h where
  treeAt_node: "tests (topicAt h T) = ts \<Longrightarrow> list_all2 (treeAt h) (topics (topicAt h T)) cs \<Longrightarrow>
     treeAt h T (Node ts cs)"

text \<open>Every spec of the suite has a root, and the topics below it form the given trees.\<close>

definition specTrees :: "'w heap \<Rightarrow> Suite \<Rightarrow> tree list \<Rightarrow> bool" where
  "specTrees h suite trs \<longleftrightarrow>
     list_all2 (\<lambda>s tr. \<exists>r. rootTopic s = Some r \<and> treeAt h r tr) (specs suite) trs"

definition exampleTree :: tree where
  "exampleTree = Node [outerTest1, outerTest2] [Node [nestedTest1, nestedTest2] []]"

definition exampleTests :: TestClass where
  "exampleTests =
     \<lparr>test_run = (\<lambda>t. if t = nestedTest2
         then \<lparr>passed = False, error = JError ''hi'' ''Error: hi at nested''\<rparr>
         else \<lparr>passed = True, error = JUndefined\<rparr>),
      test_behaviorText = (\<lambda>t. ''a spec'')\<rparr>"

section \<open>Examples of results and of addressed runs\<close>

definition exampleResults :: results where
  "exampleResults =
     \<lparr>resultAt = (\<lambda>r. if r = 1
          then \<lparr>passed = False, error = JError ''hi'' ''Error: hi at util-spec''\<rparr>
          else \<lparr>passed = True, error = JBool False\<rparr>),
      nextResult = 2\<rparr>"

text \<open>What the muted run of the example tree does.\<close>

definition mutedEvents :: "event list" where
  "mutedEvents =
     [TestRun outerTest1, PostMessage \<lparr>passed = True, error = JUndefined\<rparr>,
      TestRun outerTest2, PostMessage \<lparr>passed = True, error = JUndefined\<rparr>,
      TestRun nestedTest1, PostMessage \<lparr>passed = True, error = JUndefined\<rparr>,
      TestRun nestedTest2,
      PostMessage \<lparr>passed = False, error = JObj [(''stack'', JStr ''Error: hi at nested'')]\<rparr>]"

section \<open>Reading a query string\<close>


text \<open>\<open>js_join\<close> puts the pieces back together; it is what \<open>js_split\<close> is checked against.\<close>

fun js_join :: "char \<Rightarrow> string list \<Rightarrow> string" where
  "js_join c [] = []"
| "js_join c [p] = p"
| "js_join c (p # q # ps) = p @ c # js_join c (q # ps)"





text \<open>
  A stand-in for the host's parser.  It returns what \<open>JSON.parse\<close> returns on the
  serialization of one address and on the texts \<open>null\<close> and \<open>5\<close>, and throws on every other
  text, as \<open>JSON.parse\<close> throws on \<open>oops\<close> and on the empty text.
\<close>

definition addressText :: string where
  \<open>addressText = ''{"spec":0,"topic":[0],"test":1}''\<close>

definition addressValue :: jsval where
  "addressValue = JObj [(''spec'', JNum 0), (''topic'', JArr [JNum 0]), (''test'', JNum 1)]"

definition exampleParser :: "string \<Rightarrow> exn + jsval" where
  "exampleParser v =
     (if v = addressText then Inr addressValue
      else if v = ''null'' then Inr JNull
      else if v = ''5'' then Inr (JNum 5)
      else Inl SyntaxError)"

definition addressedSearch :: string where
  "addressedSearch =
     ''?testrunner_suite_address=%7B%22spec%22%3A0%2C%22topic%22%3A%5B0%5D%2C%22test%22%3A1%7D''"

section \<open>Arrays\<close>

lemma indexOfFrom_mem:
  "x \<in> set xs \<Longrightarrow> \<exists>n < length xs. indexOfFrom xs x k = k + int n \<and> xs ! n = x"
proof (induction xs arbitrary: k)
  case Nil
  then show ?case by simp
next
  case (Cons y ys)
  show ?case
  proof (cases "y = x")
    case True
    then show ?thesis by auto
  next
    case False
    with Cons.prems have "x \<in> set ys" by simp
    from Cons.IH [OF this, of "k + 1"] obtain n where
      "n < length ys" "indexOfFrom ys x (k + 1) = k + 1 + int n" "ys ! n = x" by blast
    with False have "Suc n < length (y # ys) \<and>
        indexOfFrom (y # ys) x k = k + int (Suc n) \<and> (y # ys) ! Suc n = x"
      by simp
    then show ?thesis by blast
  qed
qed

lemma indexOfFrom_not_mem: "x \<notin> set xs \<Longrightarrow> indexOfFrom xs x k = - 1"
  by (induction xs arbitrary: k) auto

lemma js_index_indexOf: "x \<in> set xs \<Longrightarrow> js_index xs (indexOf xs x) = Some x"
  using indexOfFrom_mem [of x xs 0] by (auto simp: js_index_def indexOf_def)

lemma indexOf_not_mem: "x \<notin> set xs \<Longrightarrow> indexOf xs x = - 1"
  by (simp add: indexOf_def indexOfFrom_not_mem)

lemma js_index_negative: "i < 0 \<Longrightarrow> js_index xs i = None"
  by (simp add: js_index_def)

lemma js_index_nth: "n < length xs \<Longrightarrow> js_index xs (int n) = Some (xs ! n)"
  by (simp add: js_index_def)

section \<open>The constructors keep the object graph well formed\<close>

lemma wf_emptyHeap: "wf_heap emptyHeap"
  by (simp add: wf_heap_def emptyHeap_def blankTopic_def blankTest_def)

lemma wf_topics_allocated:
  assumes "wf_heap h" and "c \<in> set (topics (topicAt h T))"
  shows "c < nextTopic h"
proof (rule ccontr)
  assume "\<not> c < nextTopic h"
  with assms(1) have "topicAt h c = blankTopic" unfolding wf_heap_def by simp
  moreover from assms have "parentTopic (topicAt h c) = Some T" unfolding wf_heap_def by blast
  ultimately show False by (simp add: blankTopic_def)
qed

lemma wf_tests_allocated:
  assumes "wf_heap h" and "t \<in> set (tests (topicAt h T))"
  shows "t < nextTest h"
proof (rule ccontr)
  assume "\<not> t < nextTest h"
  with assms(1) have "testAt h t = blankTest" unfolding wf_heap_def by simp
  moreover from assms have "testTopic (testAt h t) = Some T" unfolding wf_heap_def by blast
  ultimately show False by (simp add: blankTest_def)
qed

lemma wf_Topic_new:
  assumes wf: "wf_heap h" and p: "\<forall>q. p = Some q \<longrightarrow> q < nextTopic h"
  shows "wf_heap (snd (Topic_new d p h))"
proof -
  have fresh: "nextTopic h \<notin> set (topics (topicAt h U))" for U
    using wf_topics_allocated [OF wf, of "nextTopic h" U] by blast
  show ?thesis
    using wf p fresh unfolding wf_heap_def Topic_new_def
    by (auto simp: blankTopic_def)
qed

lemma wf_Test_new:
  assumes wf: "wf_heap h"
  shows "wf_heap (snd (Test_new d c T h))"
proof -
  have fresh: "nextTest h \<notin> set (tests (topicAt h U))" for U
    using wf_tests_allocated [OF wf, of "nextTest h" U] by blast
  show ?thesis
    using wf fresh unfolding wf_heap_def Test_new_def
    by (auto simp: blankTest_def)
qed

lemma wf_addSubtopic:
  assumes wf: "wf_heap h" and T: "T < nextTopic h"
  shows "wf_heap (snd (addSubtopic T d h))"
proof -
  have fresh: "nextTopic h \<notin> set (topics (topicAt h U))" for U
    using wf_topics_allocated [OF wf, of "nextTopic h" U] by blast
  show ?thesis
    using wf T fresh unfolding wf_heap_def addSubtopic_def Topic_new_def
    by (auto simp: blankTopic_def)
qed

lemma wf_addTest:
  assumes wf: "wf_heap h" and T: "T < nextTopic h"
  shows "wf_heap (snd (addTest T d c h))"
proof -
  have fresh: "nextTest h \<notin> set (tests (topicAt h U))" for U
    using wf_tests_allocated [OF wf, of "nextTest h" U] by blast
  show ?thesis
    using wf T fresh unfolding wf_heap_def addTest_def Test_new_def
    by (auto simp: blankTest_def)
qed

section \<open>The example tree, evaluated\<close>

lemmas ex_defs = ex1_def ex2_def ex3_def ex4_def ex5_def ex6_def ex7_def ex8_def
  exampleHeap_def strayHeap_def
  Topic_new_def Test_new_def addTest_def addSubtopic_def emptyHeap_def

lemma example_refs:
  "outerTopic = 0" "nestedTopic = 1"
  "outerTest1 = 0" "nestedTest1 = 1" "nestedTest2 = 2" "outerTest2 = 3" "strayTest = 4"
  by (simp_all add: outerTopic_def nestedTopic_def outerTest1_def nestedTest1_def
      nestedTest2_def outerTest2_def strayTest_def ex_defs)

lemma exampleHeap_eq:
  "exampleHeap =
     \<lparr>topicAt = (\<lambda>r. blankTopic)
        (0 := \<lparr>parentTopic = None, tests = [0, 3], topics = [1], fixtures = [],
                cleanups = [], description = ''a spec''\<rparr>,
         1 := \<lparr>parentTopic = Some 0, tests = [1, 2], topics = [], fixtures = [],
                cleanups = [], description = ''nested topic''\<rparr>),
      testAt = (\<lambda>r. blankTest)
        (0 := \<lparr>testDescription = ''has a test'', config = None, testTopic = Some 0\<rparr>,
         1 := \<lparr>testDescription = ''also has a test'', config = None, testTopic = Some 1\<rparr>,
         2 := \<lparr>testDescription = ''may have another test'', config = None, testTopic = Some 1\<rparr>,
         3 := \<lparr>testDescription = ''may include trailing tests'', config = None,
                testTopic = Some 0\<rparr>),
      nextTopic = 2, nextTest = 4\<rparr>"
  by (simp add: ex_defs fun_upd_twist eval_nat_numeral)

lemma exampleHeap_topics:
  "topicAt exampleHeap 0 = \<lparr>parentTopic = None, tests = [0, 3], topics = [1], fixtures = [],
      cleanups = [], description = ''a spec''\<rparr>"
  "topicAt exampleHeap (Suc 0) = \<lparr>parentTopic = Some 0, tests = [1, 2], topics = [],
      fixtures = [], cleanups = [], description = ''nested topic''\<rparr>"
  by (simp_all add: exampleHeap_eq)

lemma exampleHeap_tests:
  "testTopic (testAt exampleHeap 0) = Some 0"
  "testTopic (testAt exampleHeap (Suc 0)) = Some 1"
  "testTopic (testAt exampleHeap 2) = Some 1"
  "testTopic (testAt exampleHeap 3) = Some 0"
  by (simp_all add: exampleHeap_eq)

lemma wf_exampleHeap: "wf_heap exampleHeap"
proof -
  have 1: "wf_heap (snd ex1)"
    unfolding ex1_def by (rule wf_Topic_new [OF wf_emptyHeap]) simp
  have 2: "wf_heap (snd ex2)"
    unfolding ex2_def by (rule wf_addTest [OF 1]) (simp add: ex_defs)
  have 3: "wf_heap (snd ex3)"
    unfolding ex3_def by (rule wf_addSubtopic [OF 2]) (simp add: ex_defs)
  have 4: "wf_heap (snd ex4)"
    unfolding ex4_def by (rule wf_addTest [OF 3]) (simp add: ex_defs)
  have 5: "wf_heap (snd ex5)"
    unfolding ex5_def by (rule wf_addTest [OF 4]) (simp add: ex_defs)
  show ?thesis
    unfolding exampleHeap_def ex6_def by (rule wf_addTest [OF 5]) (simp add: ex_defs)
qed

lemma strayHeap_eq:
  "strayHeap =
     exampleHeap\<lparr>
       topicAt := (topicAt exampleHeap)
         (2 := \<lparr>parentTopic = None, tests = [], topics = [], fixtures = [], cleanups = [],
                description = ''detached''\<rparr>),
       testAt := (testAt exampleHeap)
         (4 := \<lparr>testDescription = ''stray'', config = None, testTopic = Some 2\<rparr>),
       nextTopic := 3, nextTest := 5\<rparr>"
  by (simp add: strayHeap_def ex8_def ex7_def Topic_new_def Test_new_def exampleHeap_eq)

lemma strayHeap_facts:
  "testTopic (testAt strayHeap 4) = Some 2"
  "parentTopic (topicAt strayHeap 2) = None"
  "tests (topicAt strayHeap 2) = []"
  by (simp_all add: strayHeap_eq)

lemma wf_strayHeap: "wf_heap strayHeap"
proof -
  have "wf_heap (snd ex7)"
    unfolding ex7_def by (rule wf_Topic_new [OF wf_exampleHeap]) simp
  then show ?thesis
    unfolding strayHeap_def ex8_def by (rule wf_Test_new)
qed

section \<open>Walking up and down the tree\<close>

lemma walkTopics_append:
  "walkTopics h T (p @ q) =
     (case walkTopics h T p of None \<Rightarrow> None | Some T' \<Rightarrow> walkTopics h T' q)"
  by (induction p arbitrary: T) (auto split: option.splits)

lemma specLoop_none:
  "\<forall>s \<in> set ss. rootTopic s \<noteq> Some T \<Longrightarrow> specLoop ss T i specIndex = specIndex"
  by (induction ss arbitrary: i specIndex) auto

lemma specLoop_found:
  "\<exists>s \<in> set ss. rootTopic s = Some T \<Longrightarrow>
     \<exists>n < length ss. specLoop ss T i specIndex = i + int n \<and> rootTopic (ss ! n) = Some T"
proof (induction ss arbitrary: i specIndex)
  case Nil
  then show ?case by simp
next
  case (Cons s ss)
  let ?si = "if rootTopic s = Some T then i else specIndex"
  show ?case
  proof (cases "\<exists>s' \<in> set ss. rootTopic s' = Some T")
    case True
    from Cons.IH [OF True, of "i + 1" ?si] obtain n where
      "n < length ss" "specLoop ss T (i + 1) ?si = i + 1 + int n" "rootTopic (ss ! n) = Some T"
      by blast
    then have "Suc n < length (s # ss) \<and> specLoop (s # ss) T i specIndex = i + int (Suc n) \<and>
        rootTopic ((s # ss) ! Suc n) = Some T" by simp
    then show ?thesis by blast
  next
    case False
    with Cons.prems have s: "rootTopic s = Some T" by auto
    from False have "specLoop ss T (i + 1) i = i"
      by (intro specLoop_none) auto
    with s have "0 < length (s # ss) \<and> specLoop (s # ss) T i specIndex = i + int 0 \<and>
          rootTopic ((s # ss) ! 0) = Some T" by simp
    then show ?thesis by blast
  qed
qed

lemma addressLoop_None: "addressLoop h ss None acc si = Some (acc, si)"
  by (subst addressLoop.simps) simp

lemma addressLoop_top:
  "parentTopic (topicAt h T) = None \<Longrightarrow>
     addressLoop h ss (Some T) acc si = Some (acc, specLoop ss T 0 si)"
  by (subst addressLoop.simps) (simp add: addressLoop_None)

lemma addressLoop_up:
  "parentTopic (topicAt h T) = Some p \<Longrightarrow>
     addressLoop h ss (Some T) acc si =
       addressLoop h ss (Some p) (indexOf (topics (topicAt h p)) T # acc) si"
  by (subst addressLoop.simps) simp

lemma addressLoop_chain:
  "chainEnds h T R \<Longrightarrow>
     \<exists>path. \<forall>acc si. addressLoop h ss (Some T) acc si = Some (path @ acc, specLoop ss R 0 si)"
proof (induction rule: chainEnds.induct)
  case (chain_top T)
  then have "\<forall>acc si. addressLoop h ss (Some T) acc si = Some ([] @ acc, specLoop ss T 0 si)"
    by (simp add: addressLoop_top)
  then show ?case by blast
next
  case (chain_up T p R)
  then obtain path where
    path: "\<And>acc si. addressLoop h ss (Some p) acc si = Some (path @ acc, specLoop ss R 0 si)"
    by blast
  have "\<forall>acc si. addressLoop h ss (Some T) acc si =
      Some ((path @ [indexOf (topics (topicAt h p)) T]) @ acc, specLoop ss R 0 si)"
    using chain_up.hyps(1) by (simp add: addressLoop_up path)
  then show ?case by blast
qed

lemma chainEnds_exists:
  assumes "\<forall>T p. parentTopic (topicAt h T) = Some p \<longrightarrow> p < T"
  shows "\<exists>R. chainEnds h T R"
proof (induction T rule: less_induct)
  case (less T)
  show ?case
  proof (cases "parentTopic (topicAt h T)")
    case None
    then show ?thesis by (blast intro: chain_top)
  next
    case (Some p)
    with assms have "p < T" by blast
    from less.IH [OF this] Some show ?thesis by (blast intro: chain_up)
  qed
qed

lemma addressLoop_subtopic:
  assumes links: "\<forall>T c. c \<in> set (topics (topicAt h T)) \<longrightarrow> parentTopic (topicAt h c) = Some T"
    and root: "parentTopic (topicAt h r) = None"
    and sub: "subtopicOf h r T"
  shows "\<exists>path. walkTopics h r path = Some T \<and>
     (\<forall>acc si. addressLoop h ss (Some T) acc si = Some (path @ acc, specLoop ss r 0 si))"
  using sub
proof (induction rule: subtopicOf.induct)
  case subtopic_root
  have "walkTopics h r [] = Some r \<and>
     (\<forall>acc si. addressLoop h ss (Some r) acc si = Some ([] @ acc, specLoop ss r 0 si))"
    using root by (simp add: addressLoop_top)
  then show ?case by blast
next
  case (subtopic_child T c)
  then obtain path where walk: "walkTopics h r path = Some T"
    and loop: "\<And>acc si. addressLoop h ss (Some T) acc si = Some (path @ acc, specLoop ss r 0 si)"
    by blast
  let ?i = "indexOf (topics (topicAt h T)) c"
  from links subtopic_child.hyps(2) have parent: "parentTopic (topicAt h c) = Some T" by blast
  have "walkTopics h r (path @ [?i]) = Some c"
    using walk subtopic_child.hyps(2) by (simp add: walkTopics_append js_index_indexOf)
  moreover have "\<forall>acc si. addressLoop h ss (Some c) acc si =
      Some ((path @ [?i]) @ acc, specLoop ss r 0 si)"
    using parent by (simp add: addressLoop_up loop)
  ultimately show ?case by blast
qed

lemma pathOutOfRange_None:
  "pathOutOfRange h T is t \<Longrightarrow> walkTopics h T is = Some T' \<Longrightarrow>
     js_index (tests (topicAt h T')) t = None"
proof (induction "is" arbitrary: T)
  case Nil
  then show ?case by (auto simp: js_index_def)
next
  case (Cons i "is")
  from Cons.prems(2) obtain c where c: "js_index (topics (topicAt h T)) i = Some c"
    and walk: "walkTopics h c is = Some T'"
    by (auto split: option.splits)
  from c have "0 \<le> i" "i < int (length (topics (topicAt h T)))"
    "c = topics (topicAt h T) ! nat i"
    by (auto simp: js_index_def split: if_splits)
  with Cons.prems(1) have "pathOutOfRange h c is t" by simp
  from Cons.IH [OF this walk] show ?case .
qed

lemma outOfRange_not_found:
  "outOfRange h suite a \<Longrightarrow> getTestByAddress h suite a = None"
  by (auto simp: outOfRange_def getTestByAddress_def Spec_getTestByAddress_def js_index_def
      split: option.splits dest: pathOutOfRange_None [unfolded js_index_def])

section \<open>Addresses\<close>

text \<open>
  C1.  In a well-formed object graph whose spec roots are parentless, every test listed by a
  topic below the root of one of the suite's specs gets an address from
  \<open>getAddressForTest\<close>, and \<open>getTestByAddress\<close> at that address returns this very test.
\<close>

theorem address_roundtrip:
  assumes wf: "wf_heap h" and roots: "rootsParentless h suite"
    and present: "containsTest h suite t"
  shows "\<exists>a. getAddressForTest h suite t = Some a \<and> getTestByAddress h suite a = Some t"
proof -
  from present obtain s r T where s: "s \<in> set (specs suite)" and r: "rootTopic s = Some r"
    and sub: "subtopicOf h r T" and t: "t \<in> set (tests (topicAt h T))"
    unfolding containsTest_def by blast
  from wf t have tt: "testTopic (testAt h t) = Some T" unfolding wf_heap_def by blast
  from wf have links: "\<forall>T c. c \<in> set (topics (topicAt h T)) \<longrightarrow> parentTopic (topicAt h c) = Some T"
    unfolding wf_heap_def by blast
  from roots s r have root: "parentTopic (topicAt h r) = None"
    unfolding rootsParentless_def by blast
  from addressLoop_subtopic [OF links root sub, of "specs suite"] obtain path where
    walk: "walkTopics h r path = Some T" and
    loop: "\<And>acc si. addressLoop h (specs suite) (Some T) acc si =
       Some (path @ acc, specLoop (specs suite) r 0 si)"
    by blast
  let ?j = "specLoop (specs suite) r 0 (- 1)"
  let ?a = "\<lparr>spec = ?j, topic = path, test = indexOf (tests (topicAt h T)) t\<rparr>"
  from s r have "\<exists>s \<in> set (specs suite). rootTopic s = Some r" by blast
  from specLoop_found [OF this, of 0 "- 1"] obtain n where
    n: "n < length (specs suite)" "?j = int n" "rootTopic (specs suite ! n) = Some r"
    by auto
  have "getAddressForTest h suite t = Some ?a"
    by (simp add: getAddressForTest_def tt loop)
  moreover have "getTestByAddress h suite ?a = Some t"
    using n walk t by (simp add: getTestByAddress_def js_index_nth Spec_getTestByAddress_def
        js_index_indexOf)
  ultimately show ?thesis by blast
qed

theorem address_roundtrip_witness:
  "wf_heap exampleHeap \<and> rootsParentless exampleHeap exampleSuite \<and>
   containsTest exampleHeap exampleSuite nestedTest2 \<and>
   (\<exists>a. getAddressForTest exampleHeap exampleSuite nestedTest2 = Some a \<and>
        getTestByAddress exampleHeap exampleSuite a = Some nestedTest2)"
proof -
  have roots: "rootsParentless exampleHeap exampleSuite"
    by (simp add: rootsParentless_def exampleSuite_def example_refs exampleHeap_topics)
  have "subtopicOf exampleHeap 0 0" by (rule subtopic_root)
  then have "subtopicOf exampleHeap 0 1"
    by (rule subtopic_child) (simp add: exampleHeap_topics)
  then have present: "containsTest exampleHeap exampleSuite nestedTest2"
    unfolding containsTest_def
    by (auto simp: exampleSuite_def example_refs exampleHeap_topics)
  from address_roundtrip [OF wf_exampleHeap roots present] wf_exampleHeap roots present
  show ?thesis by blast
qed

text \<open>
  C5.  An address with an index out of range at any level (the spec index, an index of the
  topic path, or the test index) resolves to not-found.  The lookup has no failing branch:
  its result is a test or not-found.
\<close>

theorem getTestByAddress_out_of_range:
  "outOfRange h suite a \<Longrightarrow> getTestByAddress h suite a = None"
  by (rule outOfRange_not_found)

theorem getTestByAddress_out_of_range_witness:
  "outOfRange exampleHeap exampleSuite \<lparr>spec = 0, topic = [0, 7], test = 0\<rparr> \<and>
   getTestByAddress exampleHeap exampleSuite \<lparr>spec = 0, topic = [0, 7], test = 0\<rparr> = None"
proof -
  have "outOfRange exampleHeap exampleSuite \<lparr>spec = 0, topic = [0, 7], test = 0\<rparr>"
    by (simp add: outOfRange_def exampleSuite_def example_refs exampleHeap_topics)
  with getTestByAddress_out_of_range
    [of exampleHeap exampleSuite "\<lparr>spec = 0, topic = [0, 7], test = 0\<rparr>"]
  show ?thesis by simp
qed

text \<open>
  C10.  In a well-formed object graph, a test whose chain of topics does not end at the root
  of any spec of the suite (or that has no topic) still gets an address: its spec component
  is \<open>-1\<close>, its test component is \<open>-1\<close> when the test's topic does not list the test, and
  \<open>getTestByAddress\<close> at that address returns not-found.
\<close>

theorem unrooted_address:
  assumes wf: "wf_heap h" and unrooted: "unrootedTest h suite t"
  shows "\<exists>a. getAddressForTest h suite t = Some a \<and> spec a = - 1 \<and>
     ((\<forall>T. testTopic (testAt h t) = Some T \<longrightarrow> t \<notin> set (tests (topicAt h T))) \<longrightarrow> test a = - 1) \<and>
     getTestByAddress h suite a = None"
proof (cases "testTopic (testAt h t)")
  case None
  then have "getAddressForTest h suite t = Some \<lparr>spec = - 1, topic = [], test = - 1\<rparr>"
    by (simp add: getAddressForTest_def addressLoop_None)
  then show ?thesis
    by (simp add: getTestByAddress_def js_index_negative)
next
  case (Some T)
  from wf have "\<forall>T p. parentTopic (topicAt h T) = Some p \<longrightarrow> p < T"
    unfolding wf_heap_def by blast
  from chainEnds_exists [OF this] obtain R where R: "chainEnds h T R" by blast
  with unrooted Some have "\<forall>s \<in> set (specs suite). rootTopic s \<noteq> Some R"
    unfolding unrootedTest_def by blast
  then have si: "specLoop (specs suite) R 0 (- 1) = - 1" by (rule specLoop_none)
  from addressLoop_chain [OF R, of "specs suite"] obtain path where
    "\<And>acc si. addressLoop h (specs suite) (Some T) acc si =
       Some (path @ acc, specLoop (specs suite) R 0 si)" by blast
  then have "getAddressForTest h suite t =
      Some \<lparr>spec = - 1, topic = path, test = indexOf (tests (topicAt h T)) t\<rparr>"
    by (simp add: getAddressForTest_def Some si)
  then show ?thesis
    using Some by (simp add: getTestByAddress_def js_index_negative indexOf_not_mem)
qed

theorem unrooted_address_witness:
  "wf_heap strayHeap \<and> unrootedTest strayHeap exampleSuite strayTest \<and>
   getAddressForTest strayHeap exampleSuite strayTest =
     Some \<lparr>spec = - 1, topic = [], test = - 1\<rparr> \<and>
   getTestByAddress strayHeap exampleSuite \<lparr>spec = - 1, topic = [], test = - 1\<rparr> = None"
proof -
  have top: "R = 2" if "chainEnds strayHeap 2 R" for R
    using that by (cases rule: chainEnds.cases) (simp_all add: strayHeap_facts)
  have unrooted: "unrootedTest strayHeap exampleSuite strayTest"
    unfolding unrootedTest_def
    by (auto simp: strayHeap_facts example_refs exampleSuite_def dest: top)
  from unrooted_address [OF wf_strayHeap unrooted] obtain a where
    a: "getAddressForTest strayHeap exampleSuite strayTest = Some a"
    and none: "getTestByAddress strayHeap exampleSuite a = None" by blast
  have "getAddressForTest strayHeap exampleSuite strayTest =
      Some \<lparr>spec = - 1, topic = [], test = - 1\<rparr>"
    by (simp add: getAddressForTest_def example_refs strayHeap_facts addressLoop_top
        exampleSuite_def indexOf_def)
  with a none wf_strayHeap unrooted show ?thesis by simp
qed

section \<open>Context and cleanup along the chain of a topic\<close>

lemma topicChain_exists:
  assumes "wf_heap h"
  shows "\<exists>ch. topicChain h T ch"
proof (induction T rule: less_induct)
  case (less T)
  show ?case
  proof (cases "parentTopic (topicAt h T)")
    case None
    then show ?thesis by (blast intro: chain_root)
  next
    case (Some p)
    with assms have "p < T" unfolding wf_heap_def by blast
    from less.IH [OF this] Some show ?thesis by (blast intro: chain_child)
  qed
qed

lemma applyFixtures_fold: "applyFixtures fs c w = fold fixtureStep fs (c, w)"
  by (induction fs arbitrary: c w) (auto simp: fixtureStep_def split: prod.splits)

lemma Topic_context_chain:
  "topicChain h T ch \<Longrightarrow>
     Topic_context h T w = Some (fold fixtureStep (fixturesAlong h ch) (JObj [], w))"
proof (induction arbitrary: w rule: topicChain.induct)
  case (chain_root T)
  then show ?case
    by (subst Topic_context.simps) (simp add: applyFixtures_fold fixturesAlong_def)
next
  case (chain_child T p ch)
  show ?case
    by (subst Topic_context.simps)
      (simp add: chain_child.hyps(1) chain_child.IH applyFixtures_fold fixturesAlong_def)
qed

lemma cleanupLoop_take:
  "n \<le> length cs \<Longrightarrow> cleanupLoop cs n c w = fold (\<lambda>f. f c) (rev (take n cs)) w"
proof (induction n arbitrary: w)
  case 0
  then show ?case by simp
next
  case (Suc n)
  then show ?case by (simp add: take_Suc_conv_app_nth)
qed

lemma cleanupLoop_rev: "cleanupLoop cs (length cs) c w = fold (\<lambda>f. f c) (rev cs) w"
  by (simp add: cleanupLoop_take)

lemma cleanupContext_chain:
  "topicChain h T ch \<Longrightarrow>
     cleanupContext h T c w = Some (fold (\<lambda>f. f c) (cleanupsAlong h ch) w)"
proof (induction arbitrary: w rule: topicChain.induct)
  case (chain_root T)
  then show ?case
    by (subst cleanupContext.simps) (simp add: cleanupLoop_rev cleanupsAlong_def)
next
  case (chain_child T p ch)
  show ?case
    by (subst cleanupContext.simps)
      (simp add: chain_child.hyps(1) chain_child.IH cleanupLoop_rev cleanupsAlong_def)
qed

lemma wf_addFixture: "wf_heap h \<Longrightarrow> T < nextTopic h \<Longrightarrow> wf_heap (addFixture T f h)"
  unfolding wf_heap_def addFixture_def by (auto simp: blankTopic_def)

lemma wf_addCleanup: "wf_heap h \<Longrightarrow> T < nextTopic h \<Longrightarrow> wf_heap (addCleanup T c h)"
  unfolding wf_heap_def addCleanup_def by (auto simp: blankTopic_def)

lemma nextTopic_register:
  "nextTopic (addFixture T f h) = nextTopic h"
  "nextTopic (addCleanup T c h) = nextTopic h"
  by (simp_all add: addFixture_def addCleanup_def)

lemmas fx_defs = fixtureHeap_def fx2_def fx1_def addFixture_def addCleanup_def
  Topic_new_def addSubtopic_def emptyHeap_def innerTopic_def

lemma fixtureHeap_parents:
  "parentTopic (topicAt fixtureHeap 0) = None"
  "parentTopic (topicAt fixtureHeap (Suc 0)) = Some 0"
  by (simp_all add: fx_defs)

lemma fixtureHeap_fixtures:
  "fixtures (topicAt fixtureHeap 0) = [fixtureA]"
  "fixtures (topicAt fixtureHeap (Suc 0)) = [fixtureB, fixtureC]"
  by (simp_all add: fx_defs)

lemma wf_fixtureHeap: "wf_heap fixtureHeap"
proof -
  have 1: "wf_heap (snd fx1)"
    unfolding fx1_def by (rule wf_Topic_new [OF wf_emptyHeap]) simp
  have "wf_heap (snd fx2)"
    unfolding fx2_def by (rule wf_addSubtopic [OF 1]) (simp add: fx_defs)
  then show ?thesis
    unfolding fixtureHeap_def
    by (intro wf_addFixture wf_addCleanup)
      (simp_all add: nextTopic_register fx2_def fx1_def Topic_new_def addSubtopic_def)
qed

lemma topicChain_fixtureHeap: "topicChain fixtureHeap innerTopic [0, 1]"
proof -
  have "topicChain fixtureHeap 0 [0]"
    by (rule chain_root) (simp add: fixtureHeap_parents)
  then have "topicChain fixtureHeap 1 ([0] @ [1])"
    by (rule chain_child [rotated]) (simp add: fixtureHeap_parents)
  then show ?thesis by (simp add: fx_defs)
qed

lemma topicChain_unique: "topicChain h T ch \<Longrightarrow> topicChain h T ch' \<Longrightarrow> ch = ch'"
proof (induction arbitrary: ch' rule: topicChain.induct)
  case (chain_root T)
  from chain_root.prems chain_root.hyps show ?case
    by (cases rule: topicChain.cases) simp_all
next
  case (chain_child T p ch)
  from chain_child.prems chain_child.hyps(1) obtain ch0 where
    "ch' = ch0 @ [T]" "topicChain h p ch0"
    by (cases rule: topicChain.cases) simp_all
  with chain_child.IH show ?case by simp
qed

text \<open>
  C3.  For every topic of a well-formed object graph, the \<open>context\<close> getter returns, and
  what it returns is the fold of the fixtures of the topics from the root down to this
  topic, taken in that order and, within a topic, in registration order, started from the
  empty object.  In each step of the fold the fixture receives the accumulated context;
  a truthy return value replaces it and a falsy one leaves it as it was.
\<close>

theorem context_is_fold_of_fixtures:
  assumes "wf_heap h"
  shows "(\<exists>ch. topicChain h T ch \<and>
            Topic_context h T w = Some (fold fixtureStep (fixturesAlong h ch) (JObj [], w))) \<and>
         (\<forall>f c v. fst (fixtureStep f (c, v)) =
            (if truthy (fst (f c v)) then fst (f c v) else c))"
proof -
  from topicChain_exists [OF assms] obtain ch where "topicChain h T ch" by blast
  with Topic_context_chain [of h T ch w] have
    "\<exists>ch. topicChain h T ch \<and>
        Topic_context h T w = Some (fold fixtureStep (fixturesAlong h ch) (JObj [], w))"
    by blast
  moreover have "\<forall>f c v. fst (fixtureStep f (c, v)) =
      (if truthy (fst (f c v)) then fst (f c v) else c)"
    by (auto simp: fixtureStep_def split: prod.splits)
  ultimately show ?thesis by blast
qed

theorem context_is_fold_of_fixtures_witness:
  "wf_heap fixtureHeap \<and> topicChain fixtureHeap innerTopic [0, 1] \<and>
   fixturesAlong fixtureHeap [0, 1] = [fixtureA, fixtureB, fixtureC] \<and>
   Topic_context fixtureHeap innerTopic [] =
     Some (JObj [(''c'', JNum 3), (''a'', JNum 1)], [''fixtureA'', ''fixtureB'', ''fixtureC''])"
proof -
  from context_is_fold_of_fixtures [OF wf_fixtureHeap, of innerTopic "[]"] obtain ch where
    ch: "topicChain fixtureHeap innerTopic ch" and
    ctx: "Topic_context fixtureHeap innerTopic [] =
       Some (fold fixtureStep (fixturesAlong fixtureHeap ch) (JObj [], []))"
    by blast
  from topicChain_unique [OF ch topicChain_fixtureHeap] have "ch = [0, 1]" .
  moreover have along: "fixturesAlong fixtureHeap [0, 1] = [fixtureA, fixtureB, fixtureC]"
    by (simp add: fixturesAlong_def fixtureHeap_fixtures)
  moreover have "fold fixtureStep [fixtureA, fixtureB, fixtureC] (JObj [], []) =
      (JObj [(''c'', JNum 3), (''a'', JNum 1)], [''fixtureA'', ''fixtureB'', ''fixtureC''])"
    by (simp add: fixtureStep_def fixtureA_def fixtureB_def fixtureC_def)
  ultimately show ?thesis
    using ctx wf_fixtureHeap topicChain_fixtureHeap by simp
qed

text \<open>
  C4.  For every topic of a well-formed object graph and every context, \<open>cleanupContext\<close>
  returns, and its effect is that of calling, with that context, the topic's own cleanups
  last-registered-first, then the parent's cleanups in the same manner, and so on up to
  the root: every cleanup of a topic runs before any cleanup of its ancestors.
\<close>

theorem cleanup_order:
  assumes "wf_heap h"
  shows "\<exists>ch. topicChain h T ch \<and>
           cleanupContext h T c w = Some (fold (\<lambda>f. f c) (cleanupsAlong h ch) w)"
proof -
  from topicChain_exists [OF assms] obtain ch where "topicChain h T ch" by blast
  with cleanupContext_chain [of h T ch c w] show ?thesis by blast
qed

theorem cleanup_order_witness:
  "wf_heap fixtureHeap \<and> topicChain fixtureHeap innerTopic [0, 1] \<and>
   cleanupContext fixtureHeap innerTopic (JObj []) [] =
     Some [''cleanup4'', ''cleanup3'', ''cleanup2'', ''cleanup1'']"
proof -
  from cleanup_order [OF wf_fixtureHeap, of innerTopic "JObj []" "[]"] obtain ch where
    ch: "topicChain fixtureHeap innerTopic ch" and
    res: "cleanupContext fixtureHeap innerTopic (JObj []) [] =
       Some (fold (\<lambda>f. f (JObj [])) (cleanupsAlong fixtureHeap ch) [])"
    by blast
  from topicChain_unique [OF ch topicChain_fixtureHeap] have "ch = [0, 1]" .
  moreover have "fold (\<lambda>f. f (JObj [])) (cleanupsAlong fixtureHeap [0, 1]) [] =
      [''cleanup4'', ''cleanup3'', ''cleanup2'', ''cleanup1'']"
    by (simp add: cleanupsAlong_def fx_defs)
  ultimately show ?thesis
    using res wf_fixtureHeap topicChain_fixtureHeap by simp
qed

section \<open>The order of a full run\<close>

lemma executed_append: "executed (a @ b) = executed a @ executed b"
  by (induction a rule: executed.induct) simp_all

lemma posted_append: "posted (a @ b) = posted a @ posted b"
  by (induction a rule: posted.induct) simp_all

lemma testRun_Some:
  "snd (testRun tc h suite (Some t)) = None"
  "executed (fst (testRun tc h suite (Some t))) = [t]"
  "posted (fst (testRun tc h suite (Some t))) = [cloneableResultValue (test_run tc t)]"
  by (simp_all add: testRun_def Let_def)

lemma andThen_returns:
  "snd a = None \<Longrightarrow> b = Some (evs, None) \<Longrightarrow> andThen a b = Some (fst a @ evs, None)"
  by (simp add: andThen_def)

lemma testsLoop_lookup:
  assumes "\<forall>k \<in> set ks.
      getTestByAddress h suite \<lparr>spec = si, topic = path, test = int k\<rparr> = Some (ts ! k)"
  shows "\<exists>evs. testsLoop tc h suite si path ks = Some (evs, None) \<and>
      executed evs = map ((!) ts) ks"
  using assms
proof (induction ks)
  case Nil
  then show ?case by simp
next
  case (Cons k ks)
  then obtain evs where evs: "testsLoop tc h suite si path ks = Some (evs, None)"
    "executed evs = map ((!) ts) ks" by auto
  from Cons.prems have
    "getTestByAddress h suite \<lparr>spec = si, topic = path, test = int k\<rparr> = Some (ts ! k)" by simp
  then have "testsLoop tc h suite si path (k # ks) =
      Some (fst (testRun tc h suite (Some (ts ! k))) @ evs, None)"
    by (simp add: andThen_returns [OF testRun_Some(1) evs(1)])
  then show ?case by (simp add: executed_append testRun_Some evs(2))
qed

lemma subtopicsLoop_children:
  assumes "\<forall>k \<in> set ks. \<exists>evs.
      topicRun n tc h suite (topics (topicAt h T) ! k) si (path @ [int k]) = Some (evs, None) \<and>
      executed evs = preorder (cs ! k)"
  shows "\<exists>evs. subtopicsLoop n tc h suite T si path ks = Some (evs, None) \<and>
      executed evs = concat (map (\<lambda>k. preorder (cs ! k)) ks)"
  using assms
proof (induction ks)
  case Nil
  then show ?case by simp
next
  case (Cons k ks)
  then obtain evs where evs: "subtopicsLoop n tc h suite T si path ks = Some (evs, None)"
    "executed evs = concat (map (\<lambda>k. preorder (cs ! k)) ks)" by auto
  from Cons.prems obtain evs0 where evs0:
    "topicRun n tc h suite (topics (topicAt h T) ! k) si (path @ [int k]) = Some (evs0, None)"
    "executed evs0 = preorder (cs ! k)" by auto
  have "subtopicsLoop n tc h suite T si path (k # ks) = Some (evs0 @ evs, None)"
    by (simp add: evs0(1) evs(1) andThen_def)
  then show ?case by (simp add: executed_append evs0(2) evs(2))
qed

lemma fold_max_ge: "(a::nat) \<le> fold max xs a"
proof (induction xs arbitrary: a)
  case Nil
  then show ?case by simp
next
  case (Cons x xs)
  have "a \<le> max x a" by simp
  also have "\<dots> \<le> fold max xs (max x a)" by (rule Cons.IH)
  finally show ?case by simp
qed

lemma fold_max_mem: "x \<in> set xs \<Longrightarrow> (x::nat) \<le> fold max xs a"
proof (induction xs arbitrary: a)
  case Nil
  then show ?case by simp
next
  case (Cons y ys)
  show ?case
  proof (cases "x = y")
    case True
    have "x \<le> max y a" using True by simp
    also have "\<dots> \<le> fold max ys (max y a)" by (rule fold_max_ge)
    finally show ?thesis by simp
  next
    case False
    with Cons.prems have "x \<in> set ys" by simp
    from Cons.IH [OF this] show ?thesis by simp
  qed
qed

lemma treeAt_NodeD:
  "treeAt h T (Node ts cs) \<Longrightarrow>
     tests (topicAt h T) = ts \<and> list_all2 (treeAt h) (topics (topicAt h T)) cs"
  by (erule treeAt.cases) simp

lemma topicRun_preorder:
  assumes s: "js_index (specs suite) si = Some s" and r: "rootTopic s = Some r"
  shows "treeAt h T tr \<Longrightarrow> walkTopics h r path = Some T \<Longrightarrow> height tr \<le> n \<Longrightarrow>
     \<exists>evs. topicRun n tc h suite T si path = Some (evs, None) \<and> executed evs = preorder tr"
proof (induction tr arbitrary: T path n)
  case (Node ts cs)
  from treeAt_NodeD [OF Node.prems(1)] have ts: "tests (topicAt h T) = ts"
    and cs: "list_all2 (treeAt h) (topics (topicAt h T)) cs" by simp_all
  from cs have len: "length (topics (topicAt h T)) = length cs"
    by (rule list_all2_lengthD)
  from Node.prems(3) obtain m where n: "n = Suc m" and m: "fold max (map height cs) 0 \<le> m"
    by (cases n) simp_all
  have "\<forall>k \<in> set [0..<length ts].
      getTestByAddress h suite \<lparr>spec = si, topic = path, test = int k\<rparr> = Some (ts ! k)"
    using s r Node.prems(2) ts
    by (simp add: getTestByAddress_def Spec_getTestByAddress_def js_index_nth)
  from testsLoop_lookup [OF this, of tc] obtain evs1 where
    evs1: "testsLoop tc h suite si path [0..<length ts] = Some (evs1, None)"
    "executed evs1 = map ((!) ts) [0..<length ts]" by blast
  have "\<forall>k \<in> set [0..<length cs]. \<exists>evs.
      topicRun m tc h suite (topics (topicAt h T) ! k) si (path @ [int k]) = Some (evs, None) \<and>
      executed evs = preorder (cs ! k)"
  proof
    fix k assume "k \<in> set [0..<length cs]"
    then have k: "k < length cs" by simp
    then have mem: "cs ! k \<in> set cs" by simp
    from cs k len have sub: "treeAt h (topics (topicAt h T) ! k) (cs ! k)"
      by (simp add: list_all2_nthD2)
    have walk: "walkTopics h r (path @ [int k]) = Some (topics (topicAt h T) ! k)"
      using Node.prems(2) k len by (simp add: walkTopics_append js_index_nth)
    from mem have "height (cs ! k) \<in> set (map height cs)" by simp
    from fold_max_mem [OF this, of 0] m have "height (cs ! k) \<le> m" by simp
    from Node.IH [OF mem sub walk this]
    show "\<exists>evs. topicRun m tc h suite (topics (topicAt h T) ! k) si (path @ [int k]) =
        Some (evs, None) \<and> executed evs = preorder (cs ! k)" .
  qed
  from subtopicsLoop_children [OF this] obtain evs2 where
    evs2: "subtopicsLoop m tc h suite T si path [0..<length cs] = Some (evs2, None)"
    "executed evs2 = concat (map (\<lambda>k. preorder (cs ! k)) [0..<length cs])" by blast
  have nth: "map (\<lambda>k. preorder (cs ! k)) [0..<length cs] = map preorder cs"
    by (rule nth_equalityI) simp_all
  have "topicRun n tc h suite T si path = Some (evs1 @ evs2, None)"
    by (simp add: n ts len evs1(1) evs2(1) andThen_def)
  then show ?case
    by (simp add: executed_append evs1(2) evs2(2) nth map_nth)
qed

lemma specsLoop_trees:
  assumes trees: "specTrees h suite trs" and fuel: "\<forall>tr \<in> set trs. height tr \<le> fuel"
    and ks: "\<forall>k \<in> set ks. k < length trs"
  shows "\<exists>evs. specsLoop fuel tc h suite ks = Some (evs, None) \<and>
      executed evs = concat (map (\<lambda>k. preorder (trs ! k)) ks)"
  using ks
proof (induction ks)
  case Nil
  then show ?case by simp
next
  case (Cons k ks)
  then obtain evs where evs: "specsLoop fuel tc h suite ks = Some (evs, None)"
    "executed evs = concat (map (\<lambda>k. preorder (trs ! k)) ks)" by auto
  from Cons.prems have k: "k < length trs" by simp
  from trees have len: "length (specs suite) = length trs"
    unfolding specTrees_def by (rule list_all2_lengthD)
  from trees k len obtain r where r: "rootTopic (specs suite ! k) = Some r"
    and tree: "treeAt h r (trs ! k)"
    unfolding specTrees_def by (auto dest: list_all2_nthD2)
  have s: "js_index (specs suite) (int k) = Some (specs suite ! k)"
    using k len by (simp add: js_index_nth)
  from fuel k have "height (trs ! k) \<le> fuel" by simp
  from topicRun_preorder [OF s r tree _ this, of "[]" tc] obtain evs0 where
    evs0: "topicRun fuel tc h suite r (int k) [] = Some (evs0, None)"
    "executed evs0 = preorder (trs ! k)" by auto
  let ?hd = "if \<not> isMuted suite then [ConsoleLog (specHeader (description (topicAt h r)))] else []"
  have "specsLoop fuel tc h suite (k # ks) = Some ((?hd @ evs0) @ evs, None)"
    by (simp add: r evs0(1) evs(1) andThen_def)
  then show ?case
    by (auto simp: executed_append evs0(2) evs(2))
qed

lemma example_treeAt: "treeAt exampleHeap outerTopic exampleTree"
proof -
  have "treeAt exampleHeap (Suc 0) (Node [1, 2] [])"
    by (rule treeAt_node) (simp_all add: exampleHeap_topics)
  then have "treeAt exampleHeap 0 (Node [0, 3] [Node [1, 2] []])"
    by (intro treeAt_node) (simp_all add: exampleHeap_topics)
  then show ?thesis by (simp add: exampleTree_def example_refs)
qed

lemma example_specTrees: "specTrees exampleHeap (exampleSuite\<lparr>isMuted := b\<rparr>) [exampleTree]"
  using example_treeAt by (simp add: specTrees_def exampleSuite_def)

text \<open>
  C2.  A run without an address, over specs whose topics form finite trees,
  returns normally once it may enter as many levels as the trees are high, and the tests
  it runs are, spec after spec, the pre-order walk of each tree: the direct tests of a
  topic in the order of its array, then its subtopics from left to right.  On the
  four-test tree of spec-spec.ts this is outer test 1, outer test 2, nested test 1,
  nested test 2.
\<close>

theorem full_run_order:
  assumes "address suite = None" and "specTrees h suite trs"
    and "\<forall>tr \<in> set trs. height tr \<le> fuel"
  shows "\<exists>evs. run fuel tc h suite = Some (evs, None) \<and>
           executed evs = concat (map preorder trs)"
proof -
  from assms(2) have len: "length (specs suite) = length trs"
    unfolding specTrees_def by (rule list_all2_lengthD)
  have "\<forall>k \<in> set [0..<length trs]. k < length trs" by simp
  from specsLoop_trees [OF assms(2) assms(3) this, of tc] obtain evs where
    "specsLoop fuel tc h suite [0..<length trs] = Some (evs, None)"
    "executed evs = concat (map (\<lambda>k. preorder (trs ! k)) [0..<length trs])" by blast
  moreover have "map (\<lambda>k. preorder (trs ! k)) [0..<length trs] = map preorder trs"
    by (rule nth_equalityI) simp_all
  ultimately show ?thesis
    using assms(1) len by (simp add: run_def)
qed

theorem full_run_order_witness:
  "address exampleSuite = None \<and> specTrees exampleHeap exampleSuite [exampleTree] \<and>
   height exampleTree \<le> 2 \<and>
   (\<exists>evs. run 2 exampleTests exampleHeap exampleSuite = Some (evs, None) \<and>
      executed evs = [outerTest1, outerTest2, nestedTest1, nestedTest2])"
proof -
  have a: "address exampleSuite = None" by (simp add: exampleSuite_def)
  have t: "specTrees exampleHeap exampleSuite [exampleTree]"
    using example_specTrees [of False] by (simp add: exampleSuite_def)
  have f: "\<forall>tr \<in> set [exampleTree]. height tr \<le> 2" by (simp add: exampleTree_def)
  from full_run_order [OF a t f, of exampleTests] a t f show ?thesis
    by (simp add: exampleTree_def)
qed

theorem full_run_order_counterexample:
  "map_option (executed \<circ> fst) (run 2 exampleTests exampleHeap exampleSuite) =
     Some [outerTest1, outerTest2, nestedTest1, nestedTest2] \<and>
   [outerTest1, outerTest2, nestedTest1, nestedTest2] \<noteq>
     [outerTest1, nestedTest1, nestedTest2, outerTest2]"
  by code_simp

section \<open>Reporting\<close>

lemma getTestByAddress_muted [simp]:
  "getTestByAddress h (suite\<lparr>isMuted := b\<rparr>) a = getTestByAddress h suite a"
  by (simp add: getTestByAddress_def)

lemma testsLoop_returns: "\<exists>out. testsLoop tc h suite si path ks = Some out"
  by (induction ks) (auto simp: andThen_def split: option.splits)

lemma reported_andThen:
  assumes "andThen a b = Some c"
    and "posted (fst a) = map f (executed (fst a))"
    and "\<And>b'. b = Some b' \<Longrightarrow> posted (fst b') = map f (executed (fst b'))"
  shows "posted (fst c) = map f (executed (fst c))"
  using assms
  by (auto simp: andThen_def posted_append executed_append split: option.splits)

lemma testRun_reported:
  "posted (fst (testRun tc h suite t)) =
     map (\<lambda>t. cloneableResultValue (test_run tc t)) (executed (fst (testRun tc h suite t)))"
  by (cases t) (simp_all add: testRun_def Let_def)

lemma testsLoop_reported:
  "testsLoop tc h suite si path ks = Some out \<Longrightarrow>
     posted (fst out) = map (\<lambda>t. cloneableResultValue (test_run tc t)) (executed (fst out))"
proof (induction ks arbitrary: out)
  case Nil
  then show ?case by auto
next
  case (Cons k ks)
  show ?case
  proof (cases "getTestByAddress h suite \<lparr>spec = si, topic = path, test = int k\<rparr>")
    case None
    with Cons show ?thesis by simp
  next
    case (Some t)
    with Cons.prems have
      "andThen (testRun tc h suite (Some t)) (testsLoop tc h suite si path ks) = Some out"
      by simp
    then show ?thesis
      by (rule reported_andThen) (simp_all add: testRun_reported Cons.IH)
  qed
qed

lemma topicRun_reported:
  "(\<forall>out. topicRun n tc h suite T si path = Some out \<longrightarrow>
      posted (fst out) = map (\<lambda>t. cloneableResultValue (test_run tc t)) (executed (fst out))) \<and>
   (\<forall>out. subtopicsLoop n tc h suite T si path ks = Some out \<longrightarrow>
      posted (fst out) = map (\<lambda>t. cloneableResultValue (test_run tc t)) (executed (fst out)))"
proof (induction n arbitrary: T path ks)
  case 0
  have "subtopicsLoop 0 tc h suite T si path ks = Some out \<Longrightarrow> out = ([], None)" for out
    by (cases ks) simp_all
  then show ?case by auto
next
  case (Suc n)
  have sub: "subtopicsLoop n tc h suite T si path ks = Some out \<Longrightarrow>
      posted (fst out) = map (\<lambda>t. cloneableResultValue (test_run tc t)) (executed (fst out))"
    for T path ks out
    using Suc.IH by blast
  have top: "topicRun (Suc n) tc h suite T si path = Some out \<Longrightarrow>
      posted (fst out) = map (\<lambda>t. cloneableResultValue (test_run tc t)) (executed (fst out))"
    for T path out
  proof -
    assume "topicRun (Suc n) tc h suite T si path = Some out"
    then obtain a where a: "testsLoop tc h suite si path [0..<length (tests (topicAt h T))] = Some a"
      and out: "andThen a (subtopicsLoop n tc h suite T si path
          [0..<length (topics (topicAt h T))]) = Some out"
      by (auto split: option.splits)
    from out show ?thesis
      by (rule reported_andThen) (simp_all add: testsLoop_reported [OF a] sub)
  qed
  have "subtopicsLoop (Suc n) tc h suite T si path ks = Some out \<Longrightarrow>
      posted (fst out) = map (\<lambda>t. cloneableResultValue (test_run tc t)) (executed (fst out))"
    for out
  proof (induction ks arbitrary: out)
    case Nil
    then show ?case by auto
  next
    case (Cons k ks)
    from Cons.prems obtain a where
      a: "topicRun (Suc n) tc h suite (topics (topicAt h T) ! k) si (path @ [int k]) = Some a"
      and out: "andThen a (subtopicsLoop (Suc n) tc h suite T si path ks) = Some out"
      by (auto simp del: topicRun.simps split: option.splits)
    from out show ?case
      by (rule reported_andThen) (simp_all add: top [OF a] Cons.IH)
  qed
  with top show ?case by blast
qed

lemma specsLoop_reported:
  "specsLoop fuel tc h suite ks = Some out \<Longrightarrow>
     posted (fst out) = map (\<lambda>t. cloneableResultValue (test_run tc t)) (executed (fst out))"
proof (induction ks arbitrary: out)
  case Nil
  then show ?case by auto
next
  case (Cons k ks)
  show ?case
  proof (cases "rootTopic (specs suite ! k)")
    case None
    with Cons.prems show ?thesis by auto
  next
    case (Some r)
    with Cons.prems obtain a where a: "topicRun fuel tc h suite r (int k) [] = Some a"
      and out: "andThen
          ((if \<not> isMuted suite then [ConsoleLog (specHeader (description (topicAt h r)))]
            else []) @ fst a, snd a)
          (specsLoop fuel tc h suite ks) = Some out"
      by (auto split: option.splits)
    from topicRun_reported [of fuel tc h suite r "int k" "[]"] a have
      "posted (fst a) = map (\<lambda>t. cloneableResultValue (test_run tc t)) (executed (fst a))"
      by blast
    then have "posted (fst ((if \<not> isMuted suite
          then [ConsoleLog (specHeader (description (topicAt h r)))] else []) @ fst a, snd a)) =
        map (\<lambda>t. cloneableResultValue (test_run tc t))
          (executed (fst ((if \<not> isMuted suite
            then [ConsoleLog (specHeader (description (topicAt h r)))] else []) @ fst a, snd a)))"
      by simp
    with out show ?thesis
      by (rule reported_andThen) (simp add: Cons.IH)
  qed
qed

lemma run_reported:
  "run fuel tc h suite = Some out \<Longrightarrow>
     posted (fst out) = map (\<lambda>t. cloneableResultValue (test_run tc t)) (executed (fst out))"
  by (auto simp: run_def testRun_reported specsLoop_reported split: option.splits)

text \<open>Muting: the same run without its console lines.\<close>

lemma testRun_muted:
  "testRun tc h (suite\<lparr>isMuted := True\<rparr>) t =
     (filter offConsole (fst (testRun tc h (suite\<lparr>isMuted := b\<rparr>) t)),
      snd (testRun tc h (suite\<lparr>isMuted := b\<rparr>) t))"
  by (cases t) (simp_all add: testRun_def Let_def)

lemma andThen_muted:
  "andThen (filter offConsole (fst a), snd a)
       (map_option (\<lambda>out. (filter offConsole (fst out), snd out)) b) =
     map_option (\<lambda>out. (filter offConsole (fst out), snd out)) (andThen a b)"
  by (simp add: andThen_def split: option.splits)

lemma testsLoop_muted:
  "testsLoop tc h (suite\<lparr>isMuted := True\<rparr>) si path ks =
     map_option (\<lambda>out. (filter offConsole (fst out), snd out))
       (testsLoop tc h (suite\<lparr>isMuted := b\<rparr>) si path ks)"
proof (induction ks)
  case Nil
  then show ?case by simp
next
  case (Cons k ks)
  show ?case
  proof (cases "getTestByAddress h suite \<lparr>spec = si, topic = path, test = int k\<rparr>")
    case None
    with Cons show ?thesis by simp
  next
    case (Some t)
    then show ?thesis
      by (simp add: Cons.IH testRun_muted [of tc h suite "Some t" b] andThen_muted)
  qed
qed

lemma topicRun_muted:
  "topicRun n tc h (suite\<lparr>isMuted := True\<rparr>) T si path =
     map_option (\<lambda>out. (filter offConsole (fst out), snd out))
       (topicRun n tc h (suite\<lparr>isMuted := b\<rparr>) T si path) \<and>
   subtopicsLoop n tc h (suite\<lparr>isMuted := True\<rparr>) T si path ks =
     map_option (\<lambda>out. (filter offConsole (fst out), snd out))
       (subtopicsLoop n tc h (suite\<lparr>isMuted := b\<rparr>) T si path ks)"
proof (induction n arbitrary: T path ks)
  case 0
  have "subtopicsLoop 0 tc h (suite\<lparr>isMuted := True\<rparr>) T si path ks =
     map_option (\<lambda>out. (filter offConsole (fst out), snd out))
       (subtopicsLoop 0 tc h (suite\<lparr>isMuted := b\<rparr>) T si path ks)"
    by (cases ks) simp_all
  then show ?case by simp
next
  case (Suc n)
  have sub: "subtopicsLoop n tc h (suite\<lparr>isMuted := True\<rparr>) T si path ks =
     map_option (\<lambda>out. (filter offConsole (fst out), snd out))
       (subtopicsLoop n tc h (suite\<lparr>isMuted := b\<rparr>) T si path ks)" for T path ks
    using Suc.IH by blast
  have top: "topicRun (Suc n) tc h (suite\<lparr>isMuted := True\<rparr>) T si path =
     map_option (\<lambda>out. (filter offConsole (fst out), snd out))
       (topicRun (Suc n) tc h (suite\<lparr>isMuted := b\<rparr>) T si path)" for T path
  proof -
    obtain a where a: "testsLoop tc h (suite\<lparr>isMuted := b\<rparr>) si path
        [0..<length (tests (topicAt h T))] = Some a"
      using testsLoop_returns by blast
    show ?thesis
      by (simp add: testsLoop_muted [of tc h suite si path _ b] a sub andThen_muted)
  qed
  have "subtopicsLoop (Suc n) tc h (suite\<lparr>isMuted := True\<rparr>) T si path ks =
     map_option (\<lambda>out. (filter offConsole (fst out), snd out))
       (subtopicsLoop (Suc n) tc h (suite\<lparr>isMuted := b\<rparr>) T si path ks)"
  proof (induction ks)
    case Nil
    then show ?case by simp
  next
    case (Cons k ks)
    show ?case
    proof (cases "topicRun (Suc n) tc h (suite\<lparr>isMuted := b\<rparr>)
        (topics (topicAt h T) ! k) si (path @ [int k])")
      case None
      then show ?thesis by (simp add: top del: topicRun.simps)
    next
      case (Some a)
      then show ?thesis by (simp add: top Cons.IH andThen_muted del: topicRun.simps)
    qed
  qed
  with top show ?case by simp
qed

lemma specsLoop_muted:
  "specsLoop fuel tc h (suite\<lparr>isMuted := True\<rparr>) ks =
     map_option (\<lambda>out. (filter offConsole (fst out), snd out))
       (specsLoop fuel tc h (suite\<lparr>isMuted := False\<rparr>) ks)"
proof (induction ks)
  case Nil
  then show ?case by simp
next
  case (Cons k ks)
  show ?case
  proof (cases "rootTopic (specs suite ! k)")
    case None
    then show ?thesis by simp
  next
    case (Some r)
    from topicRun_muted [of fuel tc h suite r "int k" "[]" False] have
      top: "topicRun fuel tc h (suite\<lparr>isMuted := True\<rparr>) r (int k) [] =
        map_option (\<lambda>out. (filter offConsole (fst out), snd out))
          (topicRun fuel tc h (suite\<lparr>isMuted := False\<rparr>) r (int k) [])" by blast
    show ?thesis
    proof (cases "topicRun fuel tc h (suite\<lparr>isMuted := False\<rparr>) r (int k) []")
      case None
      with Some top show ?thesis by simp
    next
      case (Some a)
      with \<open>rootTopic (specs suite ! k) = Some r\<close> top show ?thesis
        by (simp add: Cons.IH andThen_muted [symmetric])
    qed
  qed
qed

lemma run_muted:
  "run fuel tc h (suite\<lparr>isMuted := True\<rparr>) =
     map_option (\<lambda>out. (filter offConsole (fst out), snd out))
       (run fuel tc h (suite\<lparr>isMuted := False\<rparr>))"
  by (simp add: run_def specsLoop_muted testRun_muted [of tc h suite _ False]
      split: option.splits)

text \<open>
  C7.  Whatever the muted flag is, the messages a run posts are the cloneable projections of
  the results of the tests it runs, one for each test run and in the same order.  A muted
  run is the unmuted run without its console lines, and nothing else differs.  An unmuted
  \<open>testRun\<close> writes one console line between running the test and posting, and the line
  of a test marked isolated differs from the line it would get otherwise.
\<close>

theorem results_posted_muted_or_not:
  "(\<forall>evs e. run fuel tc h suite = Some (evs, e) \<longrightarrow>
      posted evs = map (\<lambda>t. cloneableResultValue (test_run tc t)) (executed evs)) \<and>
   run fuel tc h (suite\<lparr>isMuted := True\<rparr>) =
     map_option (\<lambda>out. (filter offConsole (fst out), snd out))
       (run fuel tc h (suite\<lparr>isMuted := False\<rparr>)) \<and>
   (\<forall>t. testRun tc h (suite\<lparr>isMuted := False\<rparr>) (Some t) =
      ([TestRun t,
        ConsoleLog (resultLog (test_behaviorText tc t) (test_run tc t) (isolated (testAt h t))),
        PostMessage (cloneableResultValue (test_run tc t))], None)) \<and>
   (\<forall>b r. resultLog b r True \<noteq> resultLog b r False)"
proof (intro conjI allI impI)
  fix evs e
  assume "run fuel tc h suite = Some (evs, e)"
  from run_reported [OF this]
  show "posted evs = map (\<lambda>t. cloneableResultValue (test_run tc t)) (executed evs)" by simp
next
  show "run fuel tc h (suite\<lparr>isMuted := True\<rparr>) =
     map_option (\<lambda>out. (filter offConsole (fst out), snd out))
       (run fuel tc h (suite\<lparr>isMuted := False\<rparr>))"
    by (rule run_muted)
next
  fix t
  show "testRun tc h (suite\<lparr>isMuted := False\<rparr>) (Some t) =
      ([TestRun t,
        ConsoleLog (resultLog (test_behaviorText tc t) (test_run tc t) (isolated (testAt h t))),
        PostMessage (cloneableResultValue (test_run tc t))], None)"
    by (simp add: testRun_def Let_def)
next
  fix b r
  show "resultLog b r True \<noteq> resultLog b r False"
    by (simp add: resultLog_def Let_def)
qed

lemma example_muted_run:
  "run 2 exampleTests exampleHeap (exampleSuite\<lparr>isMuted := True\<rparr>) = Some (mutedEvents, None)"
  by code_simp

theorem results_posted_muted_or_not_witness:
  "run 2 exampleTests exampleHeap (exampleSuite\<lparr>isMuted := True\<rparr>) = Some (mutedEvents, None) \<and>
   posted mutedEvents =
     map (\<lambda>t. cloneableResultValue (test_run exampleTests t)) (executed mutedEvents) \<and>
   executed mutedEvents = [outerTest1, outerTest2, nestedTest1, nestedTest2]"
proof -
  from results_posted_muted_or_not
    [of 2 exampleTests exampleHeap "exampleSuite\<lparr>isMuted := True\<rparr>"]
  have "\<forall>evs e. run 2 exampleTests exampleHeap (exampleSuite\<lparr>isMuted := True\<rparr>) = Some (evs, e) \<longrightarrow>
      posted evs = map (\<lambda>t. cloneableResultValue (test_run exampleTests t)) (executed evs)"
    by (rule conjunct1)
  with example_muted_run have "posted mutedEvents =
      map (\<lambda>t. cloneableResultValue (test_run exampleTests t)) (executed mutedEvents)"
    by blast
  moreover have "executed mutedEvents = [outerTest1, outerTest2, nestedTest1, nestedTest2]"
    by (simp add: mutedEvents_def)
  ultimately show ?thesis using example_muted_run by blast
qed

text \<open>
  C8.  When the suite holds an address that resolves to no test, because an index is out of
  range at some level or for any other reason, \<open>run\<close> returns normally with no event at
  all: no test is run, no line is written, no message is posted.
\<close>

theorem addressed_run_miss:
  assumes "address suite = Some a"
    and "outOfRange h suite a \<or> getTestByAddress h suite a = None"
  shows "run fuel tc h suite = Some ([], None)"
proof -
  from assms(2) have "getTestByAddress h suite a = None"
    by (auto dest: outOfRange_not_found)
  with assms(1) show ?thesis by (simp add: run_def)
qed

theorem addressed_run_miss_witness:
  "address (exampleSuite\<lparr>address := Some \<lparr>spec = 0, topic = [1], test = 0\<rparr>\<rparr>) =
     Some \<lparr>spec = 0, topic = [1], test = 0\<rparr> \<and>
   outOfRange exampleHeap (exampleSuite\<lparr>address := Some \<lparr>spec = 0, topic = [1], test = 0\<rparr>\<rparr>)
     \<lparr>spec = 0, topic = [1], test = 0\<rparr> \<and>
   run 2 exampleTests exampleHeap
     (exampleSuite\<lparr>address := Some \<lparr>spec = 0, topic = [1], test = 0\<rparr>\<rparr>) = Some ([], None)"
proof -
  let ?a = "\<lparr>spec = 0, topic = [1], test = 0\<rparr>"
  let ?s = "exampleSuite\<lparr>address := Some ?a\<rparr>"
  have a: "address ?s = Some ?a" by simp
  have oor: "outOfRange exampleHeap ?s ?a"
    by (simp add: outOfRange_def exampleSuite_def example_refs exampleHeap_topics)
  then have "outOfRange exampleHeap ?s ?a \<or> getTestByAddress exampleHeap ?s ?a = None" ..
  from addressed_run_miss [OF a this, of 2 exampleTests] a oor show ?thesis by simp
qed

text \<open>
  C6.  The cloneable projection of a result whose \<open>error\<close> is a native failure object is a
  new object, different from the one given and leaving it as it was: its \<open>passed\<close> is that
  of the input, and its \<open>error\<close> holds the stack text of the failure and nothing else, so
  that reading \<open>message\<close> from it gives \<open>undefined\<close>.  The projection of a result whose
  \<open>error\<close> is not a failure object is the very reference it was given, and the store of
  results is unchanged.
\<close>

theorem cloneable_projection:
  "(isFailure (error (resultAt rs r)) \<and> r < nextResult rs \<longrightarrow>
      fst (cloneableResult rs r) \<noteq> r \<and>
      passed (resultAt (snd (cloneableResult rs r)) (fst (cloneableResult rs r))) =
        passed (resultAt rs r) \<and>
      error (resultAt (snd (cloneableResult rs r)) (fst (cloneableResult rs r))) =
        JObj [(''stack'', getProp (error (resultAt rs r)) ''stack'')] \<and>
      getProp (error (resultAt (snd (cloneableResult rs r)) (fst (cloneableResult rs r))))
        ''stack'' = getProp (error (resultAt rs r)) ''stack'' \<and>
      getProp (error (resultAt (snd (cloneableResult rs r)) (fst (cloneableResult rs r))))
        ''message'' = JUndefined \<and>
      resultAt (snd (cloneableResult rs r)) r = resultAt rs r) \<and>
   (\<not> isFailure (error (resultAt rs r)) \<longrightarrow> cloneableResult rs r = (r, rs))"
  by (simp add: cloneableResult_def cloneableResultValue_def)

theorem cloneable_projection_witness:
  "isFailure (error (resultAt exampleResults 1)) \<and> 1 < nextResult exampleResults \<and>
   fst (cloneableResult exampleResults 1) = 2 \<and>
   resultAt (snd (cloneableResult exampleResults 1)) 2 =
     \<lparr>passed = False, error = JObj [(''stack'', JStr ''Error: hi at util-spec'')]\<rparr> \<and>
   getProp (error (resultAt (snd (cloneableResult exampleResults 1)) 2)) ''message'' =
     JUndefined \<and>
   \<not> isFailure (error (resultAt exampleResults 0)) \<and>
   cloneableResult exampleResults 0 = (0, exampleResults)"
  using cloneable_projection [of exampleResults 1] cloneable_projection [of exampleResults 0]
  by (simp add: exampleResults_def isFailure_def cloneableResult_def cloneableResultValue_def)

section \<open>Construction\<close>

lemma js_split_nonempty: "js_split c s \<noteq> []"
  by (induction s) (auto split: list.splits)

lemma js_join_Cons: "js_join c ((x # p) # ps) = x # js_join c (p # ps)"
  by (cases ps) simp_all

lemma js_join_split: "js_join c (js_split c s) = s"
proof (induction s)
  case Nil
  then show ?case by simp
next
  case (Cons x xs)
  obtain p ps where ps: "js_split c xs = p # ps"
    using js_split_nonempty [of c xs] by (cases "js_split c xs") auto
  show ?case
  proof (cases "x = c")
    case True
    with Cons ps show ?thesis by simp
  next
    case False
    with Cons ps show ?thesis by (simp add: js_join_Cons)
  qed
qed

lemma js_split_free: "p \<in> set (js_split c s) \<Longrightarrow> c \<notin> set p"
proof (induction s arbitrary: p)
  case Nil
  then show ?case by simp
next
  case (Cons x xs)
  obtain q qs where qs: "js_split c xs = q # qs"
    using js_split_nonempty [of c xs] by (cases "js_split c xs") auto
  with Cons show ?case by (auto split: if_splits)
qed

text \<open>\<open>decodeURIComponent\<close> on texts whose decoding is known.\<close>

lemma decodeURIComponent_examples:
  "decodeURIComponent (Some ''a%20b'') = Inr ''a b''"
  "decodeURIComponent (Some ''%7B%22spec%22%3A0%2C%22topic%22%3A%5B0%5D%2C%22test%22%3A1%7D'') =
     Inr addressText"
  "decodeURIComponent (Some ''%E2%82%AC'') = Inr [CHR 0xE2, CHR 0x82, CHR 0xAC]"
  "decodeURIComponent (Some []) = Inr []"
  "decodeURIComponent None = Inr ''undefined''"
  "decodeURIComponent (Some ''%'') = Inl URIError"
  "decodeURIComponent (Some ''%4'') = Inl URIError"
  "decodeURIComponent (Some ''%zz'') = Inl URIError"
  "decodeURIComponent (Some ''%E2%82'') = Inl URIError"
  "decodeURIComponent (Some ''%E2%82x'') = Inl URIError"
  "decodeURIComponent (Some ''%C0%80'') = Inl URIError"
  "decodeURIComponent (Some ''%ED%A0%80'') = Inl URIError"
  "decodeURIComponent (Some ''%80'') = Inl URIError"
  by code_simp+















text \<open>
  A parameter whose text is \<open>null\<close> parses, to a falsy value: the suite is constructed
  without an address, and its run is a full run.
\<close>

lemma null_address_full_run:
  "map_sum id (\<lambda>obj. map_option address (asSuite obj))
     (Suite_new exampleParser (Some ''?testrunner_suite_address=null'') [\<lparr>rootTopic = Some outerTopic\<rparr>]) =
     Inr (Some None) \<and>
   (\<forall>suite. address suite = None \<longrightarrow>
      run fuel tc h suite = specsLoop fuel tc h suite [0..<length (specs suite)])"
proof
  show "map_sum id (\<lambda>obj. map_option address (asSuite obj))
     (Suite_new exampleParser (Some ''?testrunner_suite_address=null'') [\<lparr>rootTopic = Some outerTopic\<rparr>]) =
     Inr (Some None)"
    by code_simp
  show "\<forall>suite. address suite = None \<longrightarrow>
      run fuel tc h suite = specsLoop fuel tc h suite [0..<length (specs suite)]"
    by (simp add: run_def)
qed

text \<open>
  The address of the spec's scenario, passed in the query string, constructs a suite whose
  run executes the second nested test and nothing else.
\<close>

lemma addressed_example_run:
  "map_sum id
     (\<lambda>obj. map_option (map_option (executed \<circ> fst) \<circ> run 2 exampleTests exampleHeap)
        (asSuite obj))
     (Suite_new exampleParser (Some addressedSearch) [\<lparr>rootTopic = Some outerTopic\<rparr>]) =
   Inr (Some (Some [nestedTest2]))"
  by code_simp

end
